theory Spec2Isabelle
  imports Main
begin

section \<open>Values, errors and observable effects\<close>

text \<open>
  The supervisor is JavaScript running on one event loop.  An \<^verbatim>\<open>async\<close> function runs
  synchronously up to its next \<^verbatim>\<open>await\<close>; the awaited collaborator (a worker's
  \<^verbatim>\<open>stop()\<close>, a file removal, a server close) later settles, fulfilled or rejected, and the
  function resumes.  The model follows that shape: every asynchronous operation is a
  \<^emph>\<open>call\<close> function (the synchronous prefix, returning the stage at which the operation is
  suspended) and a \<^emph>\<open>resume\<close> function (one settlement of what the stage awaits).  The order
  in which concurrent operations are resumed, and whether each collaborator fulfils or
  rejects, is a schedule: a list the environment supplies.  Theorems quantify over all
  schedules.
\<close>

text \<open>
  JSON values as far as the code inspects them.  \<open>JObj\<close> is a plain object given as the
  list of its properties; \<open>JSelf\<close> stands for a reference to the object that holds it (the
  client's \<^verbatim>\<open>state.monitor = state\<close>).
\<close>

datatype jsval = JNull | JBool bool | JNum int | JStr string | JSelf | JObj "(string \<times> jsval) list"

datatype error = TypeError | Failure string

text \<open>How an awaited promise settles.\<close>

datatype 'a settle = Fulfil 'a | Reject error

text \<open>Property bags (plain JavaScript objects): a missing key reads as \<^verbatim>\<open>undefined\<close>.\<close>

type_synonym props = "string \<rightharpoonup> jsval"

text \<open>JavaScript truthiness; \<open>None\<close> is \<^verbatim>\<open>undefined\<close>.\<close>

fun truthy :: "jsval option \<Rightarrow> bool" where
  "truthy None = False"
| "truthy (Some JNull) = False"
| "truthy (Some (JBool b)) = b"
| "truthy (Some (JNum n)) = (n \<noteq> 0)"
| "truthy (Some (JStr s)) = (s \<noteq> [])"
| "truthy (Some JSelf) = True"
| "truthy (Some (JObj ps)) = True"

text \<open>
  Calls that leave the orchestrator: log lines, event hooks, worker control, files and the
  host process.  They are recorded in call order.
\<close>

datatype effect =
    Warn_can_not_stop int
  | Log_debug error
  | Log_info_started "jsval option"
  | RunEvent string
  | Call_start nat
  | Call_stop nat
  | WritePid props
  | RemovePidFile "jsval option"
  | Process_exit int

section \<open>Worker monitors and the orchestrator\<close>

datatype status = Starting | Running | Sleeping | Crashed | Stopped

record crashState =
  status :: status
  crashes :: nat
  lastExitCode :: "int option"
  lastSignal :: "string option"

text \<open>
  A \<^verbatim>\<open>WorkerMonitor\<close> object as \<^verbatim>\<open>MasterMonitor.js\<close> uses it: \<^verbatim>\<open>instanceNum\<close> is
  \<^verbatim>\<open>undefined\<close> (here \<open>None\<close>) until the \<^verbatim>\<open>START\<close> handler assigns it; \<^verbatim>\<open>data\<close> is the
  mutable bag.  The crash state and child pid are the fields the specification lists.
\<close>

record workerMonitor =
  instanceNum :: "int option"
  data :: props
  crashSt :: crashState
  childPid :: "int option"

text \<open>
  Modelled from the spec: \<^verbatim>\<open>WorkerMonitor.toJSON\<close> (the class is not among the sources).
  "Returns an immutable-at-call-time snapshot of \<^verbatim>\<open>data\<close> merged with \<^verbatim>\<open>crashState\<close> and
  \<^verbatim>\<open>childPid\<close> -- this is the wire payload for \<^verbatim>\<open>getState\<close>": one flat object, the
  properties of \<^verbatim>\<open>data\<close> with the crash state merged in under \<^verbatim>\<open>monitor\<close> and the child pid
  under \<^verbatim>\<open>pid\<close> (\<^verbatim>\<open>null\<close> while no child runs).  These are the names under which
  \<^verbatim>\<open>test/module.test.js\<close> reads the payload (\<^verbatim>\<open>state.monitor.crashes\<close>,
  \<^verbatim>\<open>state.monitor.status\<close>, \<^verbatim>\<open>state.pid\<close>, beside \<^verbatim>\<open>state.name\<close>), and under which
  \<^verbatim>\<open>shutDown\<close> and the client read \<^verbatim>\<open>socketPath\<close>, \<^verbatim>\<open>pidFile\<close> and \<^verbatim>\<open>pid\<close>.  What is merged in
  wins over a property of \<^verbatim>\<open>data\<close> of the same name.  The snapshot is a value: later
  mutation of the worker does not change it.
\<close>

type_synonym snapshot = props

fun status_name :: "status \<Rightarrow> string" where
  "status_name Starting = ''starting''"
| "status_name Running = ''running''"
| "status_name Sleeping = ''sleeping''"
| "status_name Crashed = ''crashed''"
| "status_name Stopped = ''stopped''"

definition monitor_json :: "crashState \<Rightarrow> jsval" where
  "monitor_json c =
     JObj [(''status'', JStr (status_name (status c))),
           (''crashes'', JNum (int (crashes c))),
           (''lastExitCode'', (case lastExitCode c of None \<Rightarrow> JNull | Some n \<Rightarrow> JNum n)),
           (''lastSignal'', (case lastSignal c of None \<Rightarrow> JNull | Some g \<Rightarrow> JStr g))]"

definition toJSON :: "workerMonitor \<Rightarrow> snapshot" where
  "toJSON w =
     (data w)(''monitor'' \<mapsto> monitor_json (crashSt w),
              ''pid'' \<mapsto> (case childPid w of None \<Rightarrow> JNull | Some p \<Rightarrow> JNum p))"

text \<open>
  The orchestrator.  \<open>workers\<close> is the object store (worker objects are shared by reference
  between \<^verbatim>\<open>this.workerMonitors\<close>, the local arrays of \<^verbatim>\<open>spawn\<close>/\<^verbatim>\<open>scale\<close> and the
  closures of pending operations); \<open>workerMonitors\<close> is the array of references;
  \<open>socket\<close> tells whether \<^verbatim>\<open>this.socket\<close> is set; \<open>template\<close> is
  \<^verbatim>\<open>this._workerMonitorOptions.data\<close>; \<open>exitCode\<close> is set once \<^verbatim>\<open>process.exit\<close> was called.
\<close>

record masterMonitor =
  workers :: "nat \<Rightarrow> workerMonitor"
  workerMonitors :: "nat list"
  nextRef :: nat
  socket :: bool
  template :: props
  effects :: "effect list"
  exitCode :: "int option"

definition emit :: "effect \<Rightarrow> masterMonitor \<Rightarrow> masterMonitor" where
  "emit e m = m\<lparr>effects := effects m @ [e]\<rparr>"

definition nums :: "masterMonitor \<Rightarrow> int option list" where
  "nums m = map (\<lambda>r. instanceNum (workers m r)) (workerMonitors m)"

section \<open>Array primitives\<close>

text \<open>\<^verbatim>\<open>Array.prototype.indexOf\<close>: the first position, or \<open>-1\<close>.\<close>

fun indexOf :: "'a list \<Rightarrow> 'a \<Rightarrow> int" where
  "indexOf [] x = -1"
| "indexOf (y # ys) x =
     (if y = x then 0 else (let i = indexOf ys x in if i < 0 then -1 else i + 1))"

text \<open>
  The start position \<^verbatim>\<open>slice\<close> and \<^verbatim>\<open>splice\<close> derive from their first argument: a
  negative one counts from the end.
\<close>

definition relStart :: "int \<Rightarrow> 'a list \<Rightarrow> nat" where
  "relStart i xs =
     (let n = int (length xs) in nat (if i < 0 then max (n + i) 0 else min i n))"

text \<open>\<^verbatim>\<open>xs.splice(i, 1)\<close>: the array without the element at the start position.\<close>

definition splice1 :: "int \<Rightarrow> 'a list \<Rightarrow> 'a list" where
  "splice1 i xs = take (relStart i xs) xs @ drop (Suc (relStart i xs)) xs"

text \<open>\<^verbatim>\<open>xs.slice(i)\<close>.\<close>

definition slice :: "int \<Rightarrow> 'a list \<Rightarrow> 'a list" where
  "slice i xs = drop (relStart i xs) xs"

section \<open>\<^verbatim>\<open>MasterMonitor.shutDown(instanceNum)\<close>\<close>

text \<open>
  The stages of one \<^verbatim>\<open>shutDown(n)\<close> call for a number \<open>n\<close> (source lines 309-337):
  suspended at \<^verbatim>\<open>await workerMonitor.stop()\<close>, at \<^verbatim>\<open>await removePidFile(pidFile)\<close> (the
  socket path read from the snapshot is kept for line 327); or settled.
\<close>

datatype sd_stage =
    AwaitStop nat
  | AwaitRemovePid "jsval option"
  | Resolved
  | Rejected error

definition findWorker :: "masterMonitor \<Rightarrow> int \<Rightarrow> nat option" where
  "findWorker m n = List.find (\<lambda>r. instanceNum (workers m r) = Some n) (workerMonitors m)"

text \<open>The synchronous prefix: \<^verbatim>\<open>find\<close>, then either the warning or the call of \<^verbatim>\<open>stop()\<close>.\<close>

definition shutDown_call :: "int \<Rightarrow> masterMonitor \<Rightarrow> sd_stage \<times> masterMonitor" where
  "shutDown_call n m =
     (case findWorker m n of
        None \<Rightarrow> (Resolved, emit (Warn_can_not_stop n) m)
      | Some r \<Rightarrow> (AwaitStop r, emit (Call_stop r) m))"

text \<open>
  One settlement of what the call awaits.  A rejected \<^verbatim>\<open>await\<close> throws out of the
  function, and so does a call that throws.

  When the removal has emptied the array, line 327 calls \<^verbatim>\<open>removeDomainSocket\<close>, which
  line 19 imports from \<^verbatim>\<open>SocketsHelpers.js\<close>.  That module exports
  \<^verbatim>\<open>removeDomainSocketFile\<close> and no \<^verbatim>\<open>removeDomainSocket\<close>: the imported binding is
  \<^verbatim>\<open>undefined\<close>, and calling it throws a \<^verbatim>\<open>TypeError\<close> whatever the argument.  The call
  rejects there; lines 328-336 (closing \<^verbatim>\<open>this.socket\<close>, then \<^verbatim>\<open>process.exit(0)\<close>) are
  not reached.
\<close>

fun shutDown_resume :: "unit settle \<Rightarrow> sd_stage \<Rightarrow> masterMonitor \<Rightarrow> sd_stage \<times> masterMonitor" where
  "shutDown_resume (Reject e) (AwaitStop r) m = (Rejected e, m)"
| "shutDown_resume (Fulfil u) (AwaitStop r) m =
     (let s = toJSON (workers m r);
          index = indexOf (workerMonitors m) r;
          m1 = m\<lparr>workerMonitors := splice1 index (workerMonitors m)\<rparr>
      in (AwaitRemovePid (s ''socketPath''), emit (RemovePidFile (s ''pidFile'')) m1))"
| "shutDown_resume (Reject e) (AwaitRemovePid sp) m = (Rejected e, m)"
| "shutDown_resume (Fulfil u) (AwaitRemovePid sp) m =
     (if workerMonitors m = [] then (Rejected TypeError, m) else (Resolved, m))"
| "shutDown_resume x Resolved m = (Resolved, m)"
| "shutDown_resume x (Rejected e) m = (Rejected e, m)"

text \<open>
  A whole call under a schedule of settlements, one after the other; nothing runs once the
  process has exited.
\<close>

fun shutDown_run :: "unit settle list \<Rightarrow> sd_stage \<times> masterMonitor \<Rightarrow> sd_stage \<times> masterMonitor" where
  "shutDown_run [] c = c"
| "shutDown_run (x # xs) (t, m) =
     (if exitCode m = None then shutDown_run xs (shutDown_resume x t m) else (t, m))"

definition shutDown :: "unit settle list \<Rightarrow> int \<Rightarrow> masterMonitor \<Rightarrow> sd_stage \<times> masterMonitor" where
  "shutDown sched n m = shutDown_run sched (shutDown_call n m)"

section \<open>\<^verbatim>\<open>MasterMonitor.state(newState)\<close>\<close>

text \<open>
  \<^verbatim>\<open>Object.assign(target, source)\<close>: every own enumerable property of the source, in order,
  is written into the target.  A plain object has the properties it lists; a string has its
  characters under their indices; the other values have none.
\<close>

definition assign :: "props \<Rightarrow> (string \<times> jsval) list \<Rightarrow> props" where
  "assign target source = fold (\<lambda>(k, v) t. t(k \<mapsto> v)) source target"

fun decimal :: "nat \<Rightarrow> string" where
  "decimal n =
     (if n < 10 then [char_of (48 + n)] else decimal (n div 10) @ [char_of (48 + n mod 10)])"

fun own_properties :: "jsval \<Rightarrow> (string \<times> jsval) list" where
  "own_properties (JObj ps) = ps"
| "own_properties (JStr s) = map (\<lambda>i. (decimal i, JStr [s ! i])) [0..<length s]"
| "own_properties v = []"

text \<open>
  Source lines 268-277.  The \<^verbatim>\<open>map\<close> callback runs once per array entry, in order: it
  merges \<^verbatim>\<open>newState\<close> into the worker's \<^verbatim>\<open>data\<close> when \<^verbatim>\<open>newState\<close> is truthy (\<open>None\<close> is the
  omitted argument), and snapshots the worker.  The object store is threaded through,
  since two entries may reference one worker.
\<close>

fun state_loop ::
  "jsval option \<Rightarrow> nat list \<Rightarrow> (nat \<Rightarrow> workerMonitor) \<Rightarrow>
     snapshot list \<times> (nat \<Rightarrow> workerMonitor)" where
  "state_loop newState [] h = ([], h)"
| "state_loop newState (r # rs) h =
     (let h1 = (if truthy newState
                then h(r := (h r)\<lparr>data := assign (data (h r)) (own_properties (the newState))\<rparr>)
                else h);
          rest = state_loop newState rs h1
      in (toJSON (h1 r) # fst rest, snd rest))"

text \<open>The result is \<^verbatim>\<open>{stateList: [...]}\<close>; the list is returned with the new orchestrator.\<close>

definition state :: "jsval option \<Rightarrow> masterMonitor \<Rightarrow> snapshot list \<times> masterMonitor" where
  "state newState m =
     (let res = state_loop newState (workerMonitors m) (workers m)
      in (fst res, m\<lparr>workers := snd res\<rparr>))"


section \<open>The Control Channel listener of \<^verbatim>\<open>startServer\<close>\<close>

text \<open>
  \<^verbatim>\<open>SocketsHelpers.js\<close> lines 51-83.  Both listeners of a connection run the same handler,
  which knows the event kind it was created for.  An inbound message (\<^verbatim>\<open>data\<close> in the
  source, \<open>msg\<close> here) is absent, or an object with an optional \<^verbatim>\<open>method\<close> and optional
  \<^verbatim>\<open>args\<close>; \<open>ops\<close> stands for the source's \<^verbatim>\<open>masterMonitor\<close> and \<open>wm\<close> for its
  \<^verbatim>\<open>workerMonitor\<close>.
\<close>

datatype kind = REQUEST | PUBLISH

record message =
  msg_method :: "string option"
  msg_args :: "jsval list option"

datatype server_log =
    Warn_not_supported string
  | Error_failed_to_handle string error

text \<open>
  What a connection handler can touch: the orchestrator (any state type \<open>'s\<close>), its
  \<^verbatim>\<open>currentWorkerMonitor\<close> property, the replies sent on this connection and the log.
\<close>

record ('s, 'v, 'w) connection =
  orchestrator :: 's
  currentWorkerMonitor :: "'w option"
  sent :: "(string \<times> 'v) list"
  server_logs :: "server_log list"

text \<open>
  \<^verbatim>\<open>masterMonitor[method]\<close>: the table gives, for a name that is a function of the
  orchestrator, what calling it with the arguments does to the orchestrator and how the
  awaited result settles (\<open>None\<close>: it never settles, as when the call ends the process).
  A call that throws and a call whose promise rejects both reach the \<^verbatim>\<open>catch\<close>; they are
  the one outcome \<open>Reject\<close>.  \<^verbatim>\<open>socket.send\<close> is taken to deliver.
\<close>

type_synonym ('s, 'v) operations =
  "string \<Rightarrow> (jsval list \<Rightarrow> 's \<Rightarrow> 'v settle option \<times> 's) option"

definition listener ::
  "('s, 'v) operations \<Rightarrow> 'w \<Rightarrow> kind \<Rightarrow> message option \<Rightarrow>
     ('s, 'v, 'w) connection \<Rightarrow> ('s, 'v, 'w) connection" where
  "listener ops wm event msg c =
     (case msg of
        None \<Rightarrow> c
      | Some d \<Rightarrow>
         (case msg_method d of
            None \<Rightarrow> c
          | Some method \<Rightarrow>
             if method = [] then c
             else
               (let args = (case msg_args d of None \<Rightarrow> [] | Some a \<Rightarrow> a);
                    c1 = c\<lparr>currentWorkerMonitor := Some wm\<rparr>
                in case ops method of
                     None \<Rightarrow> c1\<lparr>server_logs := server_logs c1 @ [Warn_not_supported method]\<rparr>
                   | Some f \<Rightarrow>
                      (case f args (orchestrator c1) of
                         (None, s) \<Rightarrow> c1\<lparr>orchestrator := s\<rparr>
                       | (Some (Reject err), s) \<Rightarrow>
                           c1\<lparr>orchestrator := s,
                              server_logs := server_logs c1 @ [Error_failed_to_handle method err]\<rparr>
                       | (Some (Fulfil resp), s) \<Rightarrow>
                           if event = REQUEST
                           then c1\<lparr>orchestrator := s, sent := sent c1 @ [(method, resp)]\<rparr>
                           else c1\<lparr>orchestrator := s\<rparr>))))"

text \<open>An operations table for the examples: \<^verbatim>\<open>restart\<close> answers 1, \<^verbatim>\<open>scale\<close> throws.\<close>

definition demo_ops :: "(nat, jsval) operations" where
  "demo_ops name =
     (if name = ''restart'' then Some (\<lambda>args s. (Some (Fulfil (JNum 1)), Suc s))
      else if name = ''scale'' then Some (\<lambda>args s. (Some (Reject (Failure ''boom'')), s))
      else None)"

definition demo_conn :: "(nat, jsval, nat) connection" where
  "demo_conn = \<lparr>orchestrator = 0, currentWorkerMonitor = None, sent = [], server_logs = []\<rparr>"


section \<open>Discovery: \<^verbatim>\<open>startClient\<close>, \<^verbatim>\<open>getAll\<close>, \<^verbatim>\<open>getByName\<close>, \<^verbatim>\<open>getByKey\<close>\<close>

text \<open>
  What \<^verbatim>\<open>getPids()\<close> and \<^verbatim>\<open>getSocketFiles()\<close> return: PID records and socket files, each
  with the key that identifies its orchestrator.
\<close>

record pidRef =
  p_pid :: int
  p_key :: string
  p_pidFile :: string

record socketRef =
  s_socketPath :: string
  s_key :: string

text \<open>
  What a \<^verbatim>\<open>state\<close> request answers on a client socket: the request throws, or it gives a
  falsy value, or an object.  An object is its own properties and, for an orchestrator of
  the older format, the object under its \<^verbatim>\<open>data\<close> property.
\<close>

datatype response =
    Request_failed
  | Falsy
  | Object props "(string \<times> jsval) list option"

text \<open>
  The surroundings of a discovery call, fixed while it runs: the two directory listings,
  \<^verbatim>\<open>getSocketPath\<close>, the outcome of \<^verbatim>\<open>createClient\<close> on a path (an error code, or a client
  socket) and the answer on a socket; \<^verbatim>\<open>isWin\<close>.
\<close>

record surroundings =
  pidRefs :: "pidRef list"
  socketRefs :: "socketRef list"
  getSocketPath :: "string \<Rightarrow> string"
  createClient :: "string \<Rightarrow> string + nat"
  request_STATE :: "nat \<Rightarrow> response"
  isWin :: bool

text \<open>
  What a discovery call changes: files on disk, removals that were started and are not
  awaited (they complete after the caller has gone on, if at all), client sockets closed,
  errors logged.
\<close>

record disk =
  files :: "string set"
  removals_started :: "string list"
  closed :: "nat list"
  socket_errors :: "string list"

text \<open>A \<^verbatim>\<open>ConnectionRef\<close>.\<close>

record connectionRef =
  r_key :: string
  r_socket :: nat
  r_pid :: "jsval option"
  r_pidFile :: "jsval option"
  r_socketPath :: string

text \<open>
  \<^verbatim>\<open>SocketsHelpers.js\<close> lines 34-43: nothing on Windows; a failing removal is ignored.  The
  first function is the call awaited (the file is gone when the caller goes on), the second
  the call whose promise is dropped (the removal is only started).
\<close>

definition removeDomainSocketFile :: "surroundings \<Rightarrow> string \<Rightarrow> disk \<Rightarrow> disk" where
  "removeDomainSocketFile env socketPath d =
     (if isWin env then d else d\<lparr>files := files d - {socketPath}\<rparr>)"

definition removeDomainSocketFile_unawaited :: "surroundings \<Rightarrow> string \<Rightarrow> disk \<Rightarrow> disk" where
  "removeDomainSocketFile_unawaited env socketPath d =
     (if isWin env then d else d\<lparr>removals_started := removals_started d @ [socketPath]\<rparr>)"

text \<open>
  \<^verbatim>\<open>SocketsHelpers.js\<close> lines 85-101: the client socket, or \<^verbatim>\<open>undefined\<close> after an error;
  the socket file is removed on the three codes that mean nobody listens, any other error
  is logged.
\<close>

definition startClient :: "surroundings \<Rightarrow> string \<Rightarrow> disk \<Rightarrow> nat option \<times> disk" where
  "startClient env socketPath d =
     (case createClient env socketPath of
        Inr clientSocket \<Rightarrow> (Some clientSocket, d)
      | Inl code \<Rightarrow>
          if code \<in> set [''ECONNRESET'', ''ECONNREFUSED'', ''ENOENT'']
          then (None, removeDomainSocketFile env socketPath d)
          else (None, d\<lparr>socket_errors := socket_errors d @ [code]\<rparr>))"

text \<open>
  The client's \<^verbatim>\<open>getState(socket)\<close> (lines 15-34 of the unnamed source): \<open>None\<close> is the
  \<^verbatim>\<open>null\<close> or falsy result.  An answer in the older format is flattened: \<^verbatim>\<open>data\<close> is
  deleted, \<^verbatim>\<open>monitor\<close> refers to the state itself, the properties of \<^verbatim>\<open>data\<close> are assigned
  over it, and \<^verbatim>\<open>ppid\<close> is taken from \<^verbatim>\<open>parentPid\<close> when only that is set.
\<close>

definition getState :: "surroundings \<Rightarrow> nat \<Rightarrow> disk \<Rightarrow> props option \<times> disk" where
  "getState env sock d =
     (case request_STATE env sock of
        Request_failed \<Rightarrow> (None, d\<lparr>closed := closed d @ [sock]\<rparr>)
      | Falsy \<Rightarrow> (None, d)
      | Object st None \<Rightarrow> (Some st, d)
      | Object st (Some dat) \<Rightarrow>
          (let s1 = assign (st(''monitor'' \<mapsto> JSelf)) dat;
               s2 = (if truthy (s1 ''parentPid'') \<and> \<not> truthy (s1 ''ppid'')
                     then s1(''ppid'' := s1 ''parentPid'') else s1)
           in (Some s2, d)))"

text \<open>
  \<^verbatim>\<open>getAll\<close>, first pass (lines 41-52): one probe per PID record, on the socket path derived
  from its key.  When the probe gives no socket, line 49 calls \<^verbatim>\<open>removeDomainSocketFile\<close>
  without \<^verbatim>\<open>await\<close>.  The tasks of a \<^verbatim>\<open>Promise.all\<close> batch touch nothing of each other but the
  result list and the files they remove; they are taken in array order here, and the
  theorems below do not depend on the order of the result list.
\<close>

fun pidPass :: "surroundings \<Rightarrow> pidRef list \<Rightarrow> disk \<Rightarrow> connectionRef list \<times> disk" where
  "pidPass env [] d = ([], d)"
| "pidPass env (p # ps) d =
     (let socketPath = getSocketPath env (p_key p);
          started = startClient env socketPath d;
          here = (case fst started of
                    Some sock \<Rightarrow>
                      ([\<lparr>r_key = p_key p, r_socket = sock, r_pid = Some (JNum (p_pid p)),
                         r_pidFile = Some (JStr (p_pidFile p)), r_socketPath = socketPath\<rparr>],
                       snd started)
                  | None \<Rightarrow> ([], removeDomainSocketFile_unawaited env socketPath (snd started)));
          rest = pidPass env ps (snd here)
      in (fst here @ fst rest, snd rest))"

text \<open>\<^verbatim>\<open>differenceWith(socketRefs, pidRefs, sameKey)\<close>: the socket files no PID record matches.\<close>

definition differenceWith :: "socketRef list \<Rightarrow> pidRef list \<Rightarrow> socketRef list" where
  "differenceWith socks pids = filter (\<lambda>s. \<not> list_ex (\<lambda>p. s_key s = p_key p) pids) socks"

text \<open>Second pass (lines 55-77): the remaining socket files are probed and asked their state.\<close>

fun zombiePass :: "surroundings \<Rightarrow> socketRef list \<Rightarrow> disk \<Rightarrow> connectionRef list \<times> disk" where
  "zombiePass env [] d = ([], d)"
| "zombiePass env (s # ss) d =
     (let started = startClient env (s_socketPath s) d;
          here = (case fst started of
                    None \<Rightarrow> ([], snd started)
                  | Some sock \<Rightarrow>
                     (let got = getState env sock (snd started)
                      in case fst got of
                           None \<Rightarrow> ([], snd got)
                         | Some st \<Rightarrow>
                             ([\<lparr>r_key = s_key s, r_socket = sock, r_pid = st ''pid'',
                                r_pidFile = st ''pidFile'', r_socketPath = s_socketPath s\<rparr>],
                              snd got)));
          rest = zombiePass env ss (snd here)
      in (fst here @ fst rest, snd rest))"

definition getAll :: "surroundings \<Rightarrow> disk \<Rightarrow> connectionRef list \<times> disk" where
  "getAll env d =
     (let first = pidPass env (pidRefs env) d;
          second = (if \<not> isWin env
                    then zombiePass env (differenceWith (socketRefs env) (pidRefs env)) (snd first)
                    else ([], snd first))
      in (fst first @ fst second, snd second))"

text \<open>
  \<^verbatim>\<open>getByName\<close> (lines 81-99): every discovered orchestrator is asked its state; the ones
  named \<open>name\<close> are kept and the sockets of the others are closed.
\<close>

fun byName :: "surroundings \<Rightarrow> jsval option \<Rightarrow> connectionRef list \<Rightarrow> disk \<Rightarrow> connectionRef list \<times> disk" where
  "byName env name [] d = ([], d)"
| "byName env name (ref # refs) d =
     (let got = getState env (r_socket ref) d;
          here = (case fst got of
                    None \<Rightarrow> ([], snd got)
                  | Some st \<Rightarrow>
                      if name = st ''name'' then ([ref], snd got)
                      else ([], (snd got)\<lparr>closed := closed (snd got) @ [r_socket ref]\<rparr>));
          rest = byName env name refs (snd here)
      in (fst here @ fst rest, snd rest))"

definition getByName :: "surroundings \<Rightarrow> jsval option \<Rightarrow> disk \<Rightarrow> connectionRef list \<times> disk" where
  "getByName env name d = (let found = getAll env d in byName env name (fst found) (snd found))"

text \<open>
  \<^verbatim>\<open>getByKey\<close> (lines 101-119): the same walk, but a match is stored in the single variable
  \<^verbatim>\<open>res\<close>, which starts \<^verbatim>\<open>undefined\<close> (\<open>None\<close>) and is what the function returns.
\<close>

fun byKey ::
  "surroundings \<Rightarrow> jsval option \<Rightarrow> connectionRef list \<Rightarrow> connectionRef option \<times> disk \<Rightarrow>
     connectionRef option \<times> disk" where
  "byKey env key [] acc = acc"
| "byKey env key (ref # refs) (res, d) =
     (let got = getState env (r_socket ref) d
      in byKey env key refs
           (case fst got of
              None \<Rightarrow> (res, snd got)
            | Some st \<Rightarrow>
                if key = st ''key'' then (Some ref, snd got)
                else (res, (snd got)\<lparr>closed := closed (snd got) @ [r_socket ref]\<rparr>)))"

definition getByKey :: "surroundings \<Rightarrow> jsval option \<Rightarrow> disk \<Rightarrow> connectionRef option \<times> disk" where
  "getByKey env key d = (let found = getAll env d in byKey env key (fst found) (None, snd found))"

subsection \<open>The \<^verbatim>\<open>Instance\<close> factories\<close>

record remote_instance =
  keepAlive :: "jsval option"
  i_socket :: nat

text \<open>\<^verbatim>\<open>new Instance(ref, options)\<close>.\<close>

definition new_Instance :: "props \<Rightarrow> connectionRef \<Rightarrow> remote_instance" where
  "new_Instance options ref = \<lparr>keepAlive = options ''keepAlive'', i_socket = r_socket ref\<rparr>"

text \<open>
  What a factory holds in \<^verbatim>\<open>refs\<close> when it calls \<^verbatim>\<open>refs.map(...)\<close>: \<^verbatim>\<open>undefined\<close>, one
  \<^verbatim>\<open>ConnectionRef\<close> object, or an array of them.  Only an array has a \<^verbatim>\<open>map\<close> method;
  reading \<^verbatim>\<open>map\<close> off \<^verbatim>\<open>undefined\<close> and calling the missing property of a plain object both
  throw a \<^verbatim>\<open>TypeError\<close>.
\<close>

datatype 'a refs = Undefined | Plain 'a | Array "'a list"

fun map_method :: "'a refs \<Rightarrow> ('a \<Rightarrow> 'b) \<Rightarrow> error + 'b list" where
  "map_method (Array xs) f = Inr (map f xs)"
| "map_method Undefined f = Inl TypeError"
| "map_method (Plain x) f = Inl TypeError"

definition getAllInstances :: "surroundings \<Rightarrow> props \<Rightarrow> disk \<Rightarrow> (error + remote_instance list) \<times> disk" where
  "getAllInstances env options d =
     (let found = getAll env d in (map_method (Array (fst found)) (new_Instance options), snd found))"

definition getInstancesByName ::
  "surroundings \<Rightarrow> jsval option \<Rightarrow> props \<Rightarrow> disk \<Rightarrow> (error + remote_instance list) \<times> disk" where
  "getInstancesByName env name options d =
     (let found = getByName env name d
      in (map_method (Array (fst found)) (new_Instance options), snd found))"

definition getInstanceByKey ::
  "surroundings \<Rightarrow> jsval option \<Rightarrow> props \<Rightarrow> disk \<Rightarrow> (error + remote_instance list) \<times> disk" where
  "getInstanceByKey env key options d =
     (let found = getByKey env key d;
          refs = (case fst found of None \<Rightarrow> Undefined | Some ref \<Rightarrow> Plain ref)
      in (map_method refs (new_Instance options), snd found))"

text \<open>
  A PID record is live when the socket derived from its key accepts a connection; a socket
  file is live when it accepts a connection and a supervisor answers the state request with
  an object; a probe finds no listener when it fails with one of the three codes.
\<close>

definition live_pid :: "surroundings \<Rightarrow> pidRef \<Rightarrow> bool" where
  "live_pid env p =
     (case createClient env (getSocketPath env (p_key p)) of Inr sock \<Rightarrow> True | Inl code \<Rightarrow> False)"

definition live_socket :: "surroundings \<Rightarrow> socketRef \<Rightarrow> bool" where
  "live_socket env s =
     (case createClient env (s_socketPath s) of
        Inl code \<Rightarrow> False
      | Inr sock \<Rightarrow> (case request_STATE env sock of Object st dat \<Rightarrow> True | _ \<Rightarrow> False))"

definition no_listener :: "surroundings \<Rightarrow> string \<Rightarrow> bool" where
  "no_listener env socketPath =
     (case createClient env socketPath of
        Inr sock \<Rightarrow> False
      | Inl code \<Rightarrow> code \<in> set [''ECONNRESET'', ''ECONNREFUSED'', ''ENOENT''])"

text \<open>The number of results that carry a key.\<close>

definition times_included :: "string \<Rightarrow> connectionRef list \<Rightarrow> nat" where
  "times_included k refs = length (filter (\<lambda>r. r_key r = k) refs)"

text \<open>
  An example directory: a live orchestrator \<open>a\<close> with PID record and socket file, a stale
  PID record \<open>b\<close>, a live orchestrator \<open>c\<close> whose PID record is lost, a zombie socket \<open>z\<close>.
\<close>

definition demo_env :: surroundings where
  "demo_env =
     \<lparr>pidRefs = [\<lparr>p_pid = 11, p_key = ''a'', p_pidFile = ''run/a.pid''\<rparr>,
                 \<lparr>p_pid = 12, p_key = ''b'', p_pidFile = ''run/b.pid''\<rparr>],
      socketRefs = [\<lparr>s_socketPath = ''run/a.sock'', s_key = ''a''\<rparr>,
                    \<lparr>s_socketPath = ''run/c.sock'', s_key = ''c''\<rparr>,
                    \<lparr>s_socketPath = ''run/z.sock'', s_key = ''z''\<rparr>],
      getSocketPath = (\<lambda>k. ''run/'' @ k @ ''.sock''),
      createClient = (\<lambda>p. if p = ''run/a.sock'' then Inr 1
                           else if p = ''run/c.sock'' then Inr 3
                           else Inl ''ECONNREFUSED''),
      request_STATE = (\<lambda>s. Object [''name'' \<mapsto> JStr ''app'',
                                   ''key'' \<mapsto> JStr (if s = 1 then ''a'' else ''c''),
                                   ''pid'' \<mapsto> JNum 13] None),
      isWin = False\<rparr>"

definition demo_disk :: disk where
  "demo_disk =
     \<lparr>files = {''run/a.sock'', ''run/b.sock'', ''run/c.sock'', ''run/z.sock''},
      removals_started = [], closed = [], socket_errors = []\<rparr>"

text \<open>
  What \<^verbatim>\<open>getState\<close> returns on a socket (it does not depend on the disk), and whether a
  discovered orchestrator states the name, or the key, asked for.
\<close>

definition answered :: "surroundings \<Rightarrow> nat \<Rightarrow> props option" where
  "answered env sock = fst (getState env sock \<lparr>files = {}, removals_started = [], closed = [], socket_errors = []\<rparr>)"

definition named :: "surroundings \<Rightarrow> jsval option \<Rightarrow> connectionRef \<Rightarrow> bool" where
  "named env name r =
     (case answered env (r_socket r) of None \<Rightarrow> False | Some st \<Rightarrow> name = st ''name'')"

definition keyed :: "surroundings \<Rightarrow> jsval option \<Rightarrow> connectionRef \<Rightarrow> bool" where
  "keyed env key r =
     (case answered env (r_socket r) of None \<Rightarrow> False | Some st \<Rightarrow> key = st ''key'')"

text \<open>
  Variations of the example: the same directory on Windows; with a second PID record of
  the orchestrator \<open>a\<close>; with the probe of the stale record \<open>b\<close> failing for lack of
  permission instead of being refused.
\<close>

definition demo_env_windows :: surroundings where
  "demo_env_windows = demo_env\<lparr>isWin := True\<rparr>"

definition demo_env_two_records :: surroundings where
  "demo_env_two_records =
     demo_env\<lparr>pidRefs := [\<lparr>p_pid = 11, p_key = ''a'', p_pidFile = ''run/a-1.pid''\<rparr>,
                            \<lparr>p_pid = 14, p_key = ''a'', p_pidFile = ''run/a-2.pid''\<rparr>]\<rparr>"

definition demo_env_denied :: surroundings where
  "demo_env_denied =
     demo_env\<lparr>createClient := (\<lambda>p. if p = ''run/a.sock'' then Inr 1
                                     else if p = ''run/c.sock'' then Inr 3
                                     else if p = ''run/b.sock'' then Inl ''EACCES''
                                     else Inl ''ECONNREFUSED'')\<rparr>"

section \<open>\<^verbatim>\<open>Instance.setState\<close> and \<^verbatim>\<open>Instance.getState\<close>\<close>

text \<open>
  What the orchestrator answers a \<^verbatim>\<open>state\<close> request with: the object \<^verbatim>\<open>{stateList: [...]}\<close>
  of source lines 269-276.
\<close>

datatype reply = StateList "snapshot list"

text \<open>
  \<^verbatim>\<open>masterMonitor[method](...args)\<close> for the method \<^verbatim>\<open>state\<close>, as an entry of the listener's
  operations table: the first argument, if any, is \<^verbatim>\<open>newState\<close>; the promise always
  fulfils.
\<close>

definition state_method :: "jsval list \<Rightarrow> masterMonitor \<Rightarrow> reply settle option \<times> masterMonitor" where
  "state_method args m =
     (let res = state (case args of [] \<Rightarrow> None | a # rest \<Rightarrow> Some a) m
      in (Some (Fulfil (StateList (fst res))), snd res))"

text \<open>
  Modelled from the spec: the transport (\<^verbatim>\<open>utils/ipc\<close> is not among the sources).  "Each
  message is a named event carrying a JSON payload \<^verbatim>\<open>{method, args}\<close>"; a \<^verbatim>\<open>REQUEST\<close> expects
  one reply.  A channel is the server's side of one connection (the listener of
  \<^verbatim>\<open>startServer\<close> with its operations table and worker monitor), the name the client
  sends for the constant \<^verbatim>\<open>STATE\<close>, and what a request on a closed client socket does, which
  the sources do not tell: it throws, or it is never answered.
\<close>

datatype 'v request_result = Replied 'v | Threw | No_reply

record 'w channel =
  ch_ops :: "(masterMonitor, reply) operations"
  ch_monitor :: 'w
  ch_STATE :: string
  ch_closed :: "reply request_result"

text \<open>The two ends of a connection: the server's connection state, and the client socket.\<close>

record 'w link =
  server_end :: "(masterMonitor, reply, 'w) connection"
  client_open :: bool

text \<open>
  \<^verbatim>\<open>socket.request(name, ...args)\<close> on the client socket: on an open socket the message
  reaches the server's \<^verbatim>\<open>REQUEST\<close> listener, and the request resolves with the reply the
  listener sends, if it sends one.
\<close>

definition request :: "'w channel \<Rightarrow> string \<Rightarrow> jsval list \<Rightarrow> 'w link \<Rightarrow> reply request_result \<times> 'w link" where
  "request ch name args l =
     (if client_open l then
        (let c = listener (ch_ops ch) (ch_monitor ch) REQUEST
                   (Some \<lparr>msg_method = Some name, msg_args = Some args\<rparr>) (server_end l)
         in (if length (sent (server_end l)) < length (sent c)
             then Replied (snd (last (sent c))) else No_reply,
             l\<lparr>server_end := c\<rparr>))
      else (ch_closed ch, l))"

text \<open>What a call of the client gives: a value, or a promise that never settles.\<close>

datatype 'a outcome = Returned 'a | Pending

text \<open>
  The module's \<^verbatim>\<open>getState(socket, ...args)\<close> (lines 15-34 of the unnamed source) on this
  connection.  The answer \<^verbatim>\<open>{stateList: [...]}\<close> has no \<^verbatim>\<open>data\<close> property, so the adapter for
  the older format leaves it as it is.  A request that throws closes the socket and gives
  \<^verbatim>\<open>null\<close> (\<open>None\<close>).
\<close>

definition getState_on :: "'w channel \<Rightarrow> jsval list \<Rightarrow> 'w link \<Rightarrow> reply option outcome \<times> 'w link" where
  "getState_on ch args l =
     (case request ch (ch_STATE ch) args l of
        (Replied resp, l1) \<Rightarrow> (Returned (Some resp), l1)
      | (Threw, l1) \<Rightarrow> (Returned None, l1\<lparr>client_open := False\<rparr>)
      | (No_reply, l1) \<Rightarrow> (Pending, l1))"

text \<open>
  \<^verbatim>\<open>Instance._response\<close> (lines 145-150): a truthy result is handed on, \<^verbatim>\<open>undefined\<close>
  otherwise; unless the instance was made with a truthy \<^verbatim>\<open>keepAlive\<close>, \<^verbatim>\<open>disconnect()\<close>
  closes the socket.
\<close>

definition response_of :: "remote_instance \<Rightarrow> reply option \<Rightarrow> 'w link \<Rightarrow> reply option outcome \<times> 'w link" where
  "response_of inst res l =
     (Returned res, if truthy (keepAlive inst) then l else l\<lparr>client_open := False\<rparr>)"

text \<open>\<^verbatim>\<open>Instance._getState(...args)\<close>, \<^verbatim>\<open>setState(state)\<close> and \<^verbatim>\<open>getState()\<close> (lines 152-163).\<close>

definition Instance_getState_args ::
  "'w channel \<Rightarrow> remote_instance \<Rightarrow> jsval list \<Rightarrow> 'w link \<Rightarrow> reply option outcome \<times> 'w link" where
  "Instance_getState_args ch inst args l =
     (case getState_on ch args l of
        (Returned st, l1) \<Rightarrow> response_of inst st l1
      | (Pending, l1) \<Rightarrow> (Pending, l1))"

definition Instance_setState ::
  "'w channel \<Rightarrow> remote_instance \<Rightarrow> jsval \<Rightarrow> 'w link \<Rightarrow> reply option outcome \<times> 'w link" where
  "Instance_setState ch inst st l = Instance_getState_args ch inst [st] l"

definition Instance_getState ::
  "'w channel \<Rightarrow> remote_instance \<Rightarrow> 'w link \<Rightarrow> reply option outcome \<times> 'w link" where
  "Instance_getState ch inst l = Instance_getState_args ch inst [] l"

text \<open>The worker states a call returned; none when it returned \<^verbatim>\<open>undefined\<close> or is pending.\<close>

fun states_of :: "reply option outcome \<Rightarrow> snapshot list" where
  "states_of (Returned (Some (StateList l))) = l"
| "states_of other = []"


section \<open>\<^verbatim>\<open>MasterMonitor.spawn(options)\<close>\<close>

text \<open>
  Two helpers of the repository are not among the sources and are parameters of the model:
  \<^verbatim>\<open>ensureInstanceNumber\<close>, from the requested count to the count used, and
  \<^verbatim>\<open>getInstanceDisplayName\<close>, from name and instance number to a display name.
\<close>

record helpers =
  ensureInstanceNumber :: "jsval option \<Rightarrow> int"
  getInstanceDisplayName :: "jsval option \<Rightarrow> int option \<Rightarrow> jsval"

text \<open>What \<^verbatim>\<open>spawn\<close> and \<^verbatim>\<open>scale\<close> return: \<^verbatim>\<open>{ok, errors, added}\<close> or \<^verbatim>\<open>{ok, errors, removed}\<close>.\<close>

record report =
  ok :: bool
  errors :: "error list"
  added :: "snapshot list option"
  removed :: "snapshot list option"

text \<open>
  \<^verbatim>\<open>new WorkerMonitor(this._workerMonitorOptions)\<close>: no instance number yet, its own copy of
  the template data, nothing running.
\<close>

definition new_WorkerMonitor :: "props \<Rightarrow> workerMonitor" where
  "new_WorkerMonitor options =
     \<lparr>instanceNum = None, data = options,
      crashSt = \<lparr>status = Starting, crashes = 0, lastExitCode = None, lastSignal = None\<rparr>,
      childPid = None\<rparr>"

text \<open>
  \<^verbatim>\<open>Math.max(...numbers)\<close> on a non-empty array; a member that is not a number makes the
  result \<^verbatim>\<open>NaN\<close> (\<open>None\<close>).  The source never passes the empty array.
\<close>

fun Math_max :: "int option list \<Rightarrow> int option" where
  "Math_max [] = None"
| "Math_max [x] = x"
| "Math_max (x # y # ys) =
     (case (x, Math_max (y # ys)) of (Some a, Some b) \<Rightarrow> Some (max a b) | _ \<Rightarrow> None)"

text \<open>
  \<^verbatim>\<open>workerMonitors.sort((a, b) => a.instanceNum - b.instanceNum)\<close> as a stable insertion
  sort; a difference that is \<^verbatim>\<open>NaN\<close> counts as 0, as the language defines.
\<close>

definition num_le :: "(nat \<Rightarrow> workerMonitor) \<Rightarrow> nat \<Rightarrow> nat \<Rightarrow> bool" where
  "num_le h a b =
     (case (instanceNum (h a), instanceNum (h b)) of (Some x, Some y) \<Rightarrow> x \<le> y | _ \<Rightarrow> True)"

fun insert_sorted :: "('a \<Rightarrow> 'a \<Rightarrow> bool) \<Rightarrow> 'a \<Rightarrow> 'a list \<Rightarrow> 'a list" where
  "insert_sorted le x [] = [x]"
| "insert_sorted le x (y # ys) = (if le x y then x # y # ys else y # insert_sorted le x ys)"

definition sort_by :: "('a \<Rightarrow> 'a \<Rightarrow> bool) \<Rightarrow> 'a list \<Rightarrow> 'a list" where
  "sort_by le xs = foldr (insert_sorted le) xs []"

text \<open>
  \<^verbatim>\<open>startServer(this, socketPath)\<close> at line 131.  \<^verbatim>\<open>SocketsHelpers.js\<close> lines 51-52 define
  \<^verbatim>\<open>startServer(masterMonitor, workerMonitor)\<close>, which begins with
  \<^verbatim>\<open>const { socketPath } = workerMonitor.data\<close>.  The second argument \<^verbatim>\<open>spawn\<close> passes is the
  socket path, a string: its \<^verbatim>\<open>data\<close> property is \<^verbatim>\<open>undefined\<close>, destructuring it throws a
  \<^verbatim>\<open>TypeError\<close>, and the promise of the \<^verbatim>\<open>async\<close> function rejects before a server is made.
  (The function has no \<^verbatim>\<open>return\<close> either: were it to fulfil, it would fulfil with
  \<^verbatim>\<open>undefined\<close>.)
\<close>

definition startServer :: "string \<Rightarrow> unit settle" where
  "startServer socketPath = Reject TypeError"

text \<open>
  The bootstrap of one new worker (source lines 184-224).  The handlers of lines 137-182
  only log and run event hooks, and \<^verbatim>\<open>workspace.set\<close> touches nothing the orchestrator
  reads; they are left out.

  The \<^verbatim>\<open>START\<close> handler is registered with \<^verbatim>\<open>on\<close>: it runs on every \<^verbatim>\<open>START\<close> the worker
  emits, and each run is an \<^verbatim>\<open>async\<close> function of its own.  A run is suspended at
  \<^verbatim>\<open>await getPidFile\<close> (holding the \<^verbatim>\<open>instanceNum\<close> it read), at \<^verbatim>\<open>await getSocketPath\<close>
  (holding the PID file too) or at \<^verbatim>\<open>await writePid\<close>, or it has finished, after the \<^verbatim>\<open>try\<close>
  or after the \<^verbatim>\<open>catch\<close>.  A bootstrap is the promise of line 184, resolved by the first run
  that finishes (a later \<^verbatim>\<open>resolve\<close> changes nothing), and the runs of the handler in the
  order of their \<^verbatim>\<open>START\<close> events.
\<close>

datatype run =
    AwaitPidFile "int option"
  | AwaitSocketPath "int option" string
  | AwaitWritePid
  | Finished

record boot =
  b_promise :: "snapshot option"
  b_runs :: "run list"

text \<open>
  What can happen to a bootstrap: the worker emits \<^verbatim>\<open>START\<close>, or the call that the \<open>j\<close>-th
  run of the handler awaits settles.
\<close>

datatype settled =
    PidFile "string settle"
  | SocketPath "string settle"
  | PidWritten "unit settle"

datatype boot_event =
    START
  | Settled nat settled

text \<open>Lines 187-192: the number is one more than the largest in the array, then the push.\<close>

definition assign_number :: "nat \<Rightarrow> masterMonitor \<Rightarrow> int option \<times> masterMonitor" where
  "assign_number r m =
     (let numbers = (if workerMonitors m \<noteq> [] then nums m else [Some 0]);
          n = map_option (\<lambda>x. x + 1) (Math_max numbers)
      in (n, m\<lparr>workers := (workers m)(r := (workers m r)\<lparr>instanceNum := n\<rparr>),
               workerMonitors := workerMonitors m @ [r]\<rparr>))"

text \<open>Lines 217-220: the \<^verbatim>\<open>catch\<close> logs and collects the error.\<close>

definition run_failed :: "error \<Rightarrow> masterMonitor \<Rightarrow> run \<times> masterMonitor \<times> error list" where
  "run_failed err m = (Finished, emit (Log_debug err) m, [err])"

definition number_value :: "int option \<Rightarrow> jsval" where
  "number_value n = (case n of Some i \<Rightarrow> JNum i | None \<Rightarrow> JNull)"

text \<open>
  One settlement for one run of the handler on the worker \<open>r\<close>: the run it becomes, the
  orchestrator, and the errors pushed.  A settlement of something the run does not await
  does not occur; it changes nothing.
\<close>

fun run_resume ::
  "helpers \<Rightarrow> settled \<Rightarrow> run \<Rightarrow> nat \<Rightarrow> masterMonitor \<Rightarrow> run \<times> masterMonitor \<times> error list" where
  "run_resume hp (PidFile (Fulfil pidFile)) (AwaitPidFile n) r m = (AwaitSocketPath n pidFile, m, [])"
| "run_resume hp (PidFile (Reject err)) (AwaitPidFile n) r m = run_failed err m"
| "run_resume hp (SocketPath (Fulfil socketPath)) (AwaitSocketPath n pidFile) r m =
     (let options = data (workers m r);
          options1 = options(''instanceNum'' \<mapsto> number_value n, ''pidFile'' \<mapsto> JStr pidFile,
                             ''socketPath'' \<mapsto> JStr socketPath);
          options2 = options1(''displayName'' \<mapsto> getInstanceDisplayName hp (options1 ''name'') n);
          m1 = m\<lparr>workers := (workers m)(r := (workers m r)\<lparr>data := options2\<rparr>)\<rparr>
      in (AwaitWritePid, emit (WritePid options2) m1, []))"
| "run_resume hp (SocketPath (Reject err)) (AwaitSocketPath n pidFile) r m = run_failed err m"
| "run_resume hp (PidWritten (Fulfil u)) AwaitWritePid r m =
     (let m1 = m\<lparr>workerMonitors := sort_by (num_le (workers m)) (workerMonitors m)\<rparr>;
          m2 = emit (RunEvent ''start'')
                 (emit (Log_info_started (data (workers m1 r) ''displayName'')) m1)
      in (Finished, m2, []))"
| "run_resume hp (PidWritten (Reject err)) AwaitWritePid r m = run_failed err m"
| "run_resume hp x ru r m = (ru, m, [])"

text \<open>
  One event for the bootstrap of the worker \<open>r\<close>.  \<^verbatim>\<open>START\<close> begins a new run of the handler:
  its synchronous prefix numbers the worker and pushes it onto the array, whether or not
  an earlier run has done so.  A run that finishes calls \<^verbatim>\<open>resolve(workerMonitor.toJSON())\<close>
  (line 221).
\<close>

definition boot_resume ::
  "helpers \<Rightarrow> boot_event \<Rightarrow> boot \<Rightarrow> nat \<Rightarrow> masterMonitor \<Rightarrow> error list \<Rightarrow>
     boot \<times> masterMonitor \<times> error list" where
  "boot_resume hp ev b r m errs =
     (case ev of
        START \<Rightarrow>
          (let numbered = assign_number r m
           in (b\<lparr>b_runs := b_runs b @ [AwaitPidFile (fst numbered)]\<rparr>, snd numbered, errs))
      | Settled j x \<Rightarrow>
          if j < length (b_runs b) then
            (let res = run_resume hp x (b_runs b ! j) r m;
                 m1 = fst (snd res);
                 finishes = (fst res = Finished \<and> b_runs b ! j \<noteq> Finished);
                 p = (if finishes \<and> b_promise b = None then Some (toJSON (workers m1 r))
                      else b_promise b)
             in (\<lparr>b_promise = p, b_runs = (b_runs b)[j := fst res]\<rparr>, m1, errs @ snd (snd res)))
          else (b, m, errs))"

text \<open>A bootstrap before its worker has emitted \<^verbatim>\<open>START\<close>.\<close>

definition fresh_boot :: boot where
  "fresh_boot = \<lparr>b_promise = None, b_runs = []\<rparr>"

text \<open>
  The whole call.  When \<^verbatim>\<open>this.socket\<close> is not set it first asks for the socket path and
  calls \<^verbatim>\<open>startServer\<close> (lines 128-132); then it starts every new worker and waits for all
  bootstrap promises.
\<close>

record spawning =
  sp_refs :: "nat list"
  sp_boots :: "boot list"
  sp_errors :: "error list"

datatype spawn_stage =
    Await_getSocketPath "nat list"
  | Bootstrapping spawning
  | Spawned report
  | Spawn_rejected error

datatype spawn_event =
    Got_socketPath "string settle"
  | Boot nat boot_event

definition is_Booted :: "boot \<Rightarrow> bool" where
  "is_Booted b = (b_promise b \<noteq> None)"

definition snapshot_of :: "boot \<Rightarrow> snapshot list" where
  "snapshot_of b = (case b_promise b of Some s \<Rightarrow> [s] | None \<Rightarrow> [])"

text \<open>
  Lines 227-234: \<^verbatim>\<open>Promise.all\<close> resolves once every bootstrap promise has, with the
  snapshots in the order of the requests; then the report is built.
\<close>

definition join :: "spawning \<Rightarrow> spawn_stage" where
  "join s =
     (if list_all is_Booted (sp_boots s)
      then Spawned \<lparr>ok = (length (sp_boots s) > length (sp_errors s)),
                    errors = sp_errors s,
                    added = Some (concat (map snapshot_of (sp_boots s))),
                    removed = None\<rparr>
      else Bootstrapping s)"

text \<open>Lines 134-225: handlers are registered and \<^verbatim>\<open>start()\<close> is called on every new worker.\<close>

definition bootstrap_all :: "nat list \<Rightarrow> masterMonitor \<Rightarrow> spawn_stage \<times> masterMonitor" where
  "bootstrap_all refs m =
     (join \<lparr>sp_refs = refs, sp_boots = map (\<lambda>r. \<lparr>b_promise = None, b_runs = []\<rparr>) refs,
            sp_errors = []\<rparr>,
      m\<lparr>effects := effects m @ map Call_start refs\<rparr>)"

text \<open>
  The synchronous prefix (lines 119-128).  \<^verbatim>\<open>new Array(n)\<close> throws a \<^verbatim>\<open>RangeError\<close> on a
  negative length.  The new worker objects get fresh references.
\<close>

definition spawn_call :: "helpers \<Rightarrow> jsval option \<Rightarrow> masterMonitor \<Rightarrow> spawn_stage \<times> masterMonitor" where
  "spawn_call hp instances m =
     (let newInstances = ensureInstanceNumber hp instances in
      if newInstances < 0 then (Spawn_rejected (Failure ''RangeError''), m)
      else
        (let first = nextRef m;
             beyond = first + nat newInstances;
             refs = [first..<beyond];
             m1 = m\<lparr>workers := (\<lambda>r. if first \<le> r \<and> r < beyond
                                        then new_WorkerMonitor (template m) else workers m r),
                     nextRef := beyond\<rparr>
         in if \<not> socket m1 then (Await_getSocketPath refs, m1) else bootstrap_all refs m1))"

text \<open>
  One event for the call.  Once the socket path is there, \<^verbatim>\<open>startServer\<close> is called and
  awaited; its rejection throws out of \<^verbatim>\<open>spawn\<close>.  What it fulfils with is stored in
  \<^verbatim>\<open>this.socket\<close>: \<^verbatim>\<open>undefined\<close>, so the socket stays unset.
\<close>

fun spawn_resume :: "helpers \<Rightarrow> spawn_event \<Rightarrow> spawn_stage \<Rightarrow> masterMonitor \<Rightarrow> spawn_stage \<times> masterMonitor" where
  "spawn_resume hp (Got_socketPath (Fulfil p)) (Await_getSocketPath refs) m =
     (case startServer p of
        Reject err \<Rightarrow> (Spawn_rejected err, m)
      | Fulfil u \<Rightarrow> bootstrap_all refs (m\<lparr>socket := False\<rparr>))"
| "spawn_resume hp (Got_socketPath (Reject err)) (Await_getSocketPath refs) m =
     (Spawn_rejected err, m)"
| "spawn_resume hp (Boot i ev) (Bootstrapping s) m =
     (if i < length (sp_boots s) then
        (let res = boot_resume hp ev (sp_boots s ! i) (sp_refs s ! i) m (sp_errors s)
         in (join (s\<lparr>sp_boots := (sp_boots s)[i := fst res], sp_errors := snd (snd res)\<rparr>),
             fst (snd res)))
      else (Bootstrapping s, m))"
| "spawn_resume hp ev st m = (st, m)"

fun spawn_run ::
  "helpers \<Rightarrow> spawn_event list \<Rightarrow> spawn_stage \<times> masterMonitor \<Rightarrow> spawn_stage \<times> masterMonitor" where
  "spawn_run hp [] c = c"
| "spawn_run hp (ev # evs) (st, m) =
     (if exitCode m = None then spawn_run hp evs (spawn_resume hp ev st m) else (st, m))"

definition spawn ::
  "helpers \<Rightarrow> spawn_event list \<Rightarrow> jsval option \<Rightarrow> masterMonitor \<Rightarrow> spawn_stage \<times> masterMonitor" where
  "spawn hp sched instances m = spawn_run hp sched (spawn_call hp instances m)"

text \<open>
  What a schedule holds for the bootstrap at position \<open>i\<close>: the worker's \<^verbatim>\<open>START\<close>, and a
  settlement that makes a run of its handler finish (a rejection, or the settlement of
  \<^verbatim>\<open>writePid\<close>).  \<open>starts\<close> lists the workers of the \<^verbatim>\<open>START\<close> events in order.
\<close>

fun finishing :: "settled \<Rightarrow> bool" where
  "finishing (PidFile (Reject err)) = True"
| "finishing (SocketPath (Reject err)) = True"
| "finishing (PidWritten x) = True"
| "finishing x = False"

definition started_in :: "spawn_event list \<Rightarrow> nat \<Rightarrow> bool" where
  "started_in sched i = list_ex (\<lambda>ev. ev = Boot i START) sched"

definition finished_in :: "spawn_event list \<Rightarrow> nat \<Rightarrow> bool" where
  "finished_in sched i =
     list_ex (\<lambda>ev. case ev of Boot k (Settled j x) \<Rightarrow> k = i \<and> finishing x | _ \<Rightarrow> False) sched"

definition starts :: "spawn_event list \<Rightarrow> nat list" where
  "starts sched = concat (map (\<lambda>ev. case ev of Boot i START \<Rightarrow> [i] | _ \<Rightarrow> []) sched)"

text \<open>
  Schedules in which the workers bootstrap one after the other, each emitting \<^verbatim>\<open>START\<close>
  once: the outcome of a bootstrap is that every step succeeds (with the PID file and the
  socket path found), or that one of the three awaited calls rejects.
\<close>

datatype boot_outcome =
    Boots string string
  | No_pidFile error
  | No_socketPath string error
  | No_pidWritten string string error

fun boot_script :: "nat \<Rightarrow> boot_outcome \<Rightarrow> spawn_event list" where
  "boot_script i (Boots pidFile socketPath) =
     [Boot i START, Boot i (Settled 0 (PidFile (Fulfil pidFile))),
      Boot i (Settled 0 (SocketPath (Fulfil socketPath))), Boot i (Settled 0 (PidWritten (Fulfil ())))]"
| "boot_script i (No_pidFile err) =
     [Boot i START, Boot i (Settled 0 (PidFile (Reject err)))]"
| "boot_script i (No_socketPath pidFile err) =
     [Boot i START, Boot i (Settled 0 (PidFile (Fulfil pidFile))),
      Boot i (Settled 0 (SocketPath (Reject err)))]"
| "boot_script i (No_pidWritten pidFile socketPath err) =
     [Boot i START, Boot i (Settled 0 (PidFile (Fulfil pidFile))),
      Boot i (Settled 0 (SocketPath (Fulfil socketPath))), Boot i (Settled 0 (PidWritten (Reject err)))]"

fun failure_of :: "boot_outcome \<Rightarrow> error list" where
  "failure_of (Boots pidFile socketPath) = []"
| "failure_of (No_pidFile err) = [err]"
| "failure_of (No_socketPath pidFile err) = [err]"
| "failure_of (No_pidWritten pidFile socketPath err) = [err]"

fun scripts_from :: "nat \<Rightarrow> boot_outcome list \<Rightarrow> spawn_event list" where
  "scripts_from i [] = []"
| "scripts_from i (out # outs) = boot_script i out @ scripts_from (Suc i) outs"

definition one_by_one :: "boot_outcome list \<Rightarrow> spawn_event list" where
  "one_by_one outs = scripts_from 0 outs"

text \<open>
  What holds of a \<^verbatim>\<open>spawn\<close> call for \<open>n\<close> workers at every moment: while it waits, there are
  \<open>n\<close> bootstraps, not all resolved; once it has returned, the report has \<open>n\<close> snapshots and
  \<^verbatim>\<open>ok\<close> compares \<open>n\<close> with the error count.
\<close>

definition report_ok :: "nat \<Rightarrow> spawn_stage \<Rightarrow> bool" where
  "report_ok n st =
     (case st of
        Await_getSocketPath refs \<Rightarrow> length refs = n
      | Bootstrapping s \<Rightarrow> length (sp_boots s) = n \<and> \<not> list_all is_Booted (sp_boots s)
      | Spawned rep \<Rightarrow>
          (\<exists>snaps. added rep = Some snaps \<and> length snaps = n) \<and>
          ok rep = (n > length (errors rep)) \<and> removed rep = None
      | Spawn_rejected err \<Rightarrow> True)"

text \<open>
  How a \<^verbatim>\<open>spawn\<close> call for \<open>n\<close> workers relates to the events \<open>P\<close> it has been given: a
  bootstrap with a run of the handler has had its \<^verbatim>\<open>START\<close>, a resolved bootstrap has also
  had a settlement that finishes a run, and a call that has returned has had both for every
  worker.
\<close>

definition seen :: "nat \<Rightarrow> spawn_event list \<Rightarrow> spawn_stage \<Rightarrow> bool" where
  "seen n P st =
     (case st of
        Bootstrapping s \<Rightarrow>
          length (sp_boots s) = n \<and>
          (\<forall>i < n. (b_runs (sp_boots s ! i) \<noteq> [] \<longrightarrow> started_in P i) \<and>
                   (is_Booted (sp_boots s ! i) \<longrightarrow> started_in P i \<and> finished_in P i))
      | Spawned rep \<Rightarrow> (\<forall>i < n. started_in P i \<and> finished_in P i)
      | _ \<Rightarrow> True)"

text \<open>
  How the bootstraps of a \<^verbatim>\<open>spawn\<close> on an orchestrator without workers and
  \<^verbatim>\<open>workerMonitors\<close> fit together while no worker has emitted \<^verbatim>\<open>START\<close> twice: the new
  workers have the references from \<open>f\<close> on; the array holds, without repetition, exactly
  the workers that have emitted \<^verbatim>\<open>START\<close>; and its instance numbers are 1, 2, ... in array
  order.
\<close>

definition boots_match :: "nat \<Rightarrow> spawning \<Rightarrow> masterMonitor \<Rightarrow> bool" where
  "boots_match f s m =
     (sp_refs s = [f..<f + length (sp_boots s)] \<and>
      distinct (workerMonitors m) \<and>
      set (workerMonitors m) = {f + i | i. i < length (sp_boots s) \<and> b_runs (sp_boots s ! i) \<noteq> []} \<and>
      nums m = map (\<lambda>k. Some (int k)) [1..<Suc (length (workerMonitors m))])"

definition fresh_inv :: "nat \<Rightarrow> nat \<Rightarrow> spawn_stage \<Rightarrow> masterMonitor \<Rightarrow> bool" where
  "fresh_inv f n st m =
     (case st of
        Await_getSocketPath refs \<Rightarrow> refs = [f..<f + n] \<and> workerMonitors m = []
      | Bootstrapping s \<Rightarrow>
          length (sp_boots s) = n \<and> boots_match f s m \<and>
          (\<forall>i < n. is_Booted (sp_boots s ! i) \<longrightarrow> b_runs (sp_boots s ! i) \<noteq> [])
      | Spawned rep \<Rightarrow>
          nums m = map (\<lambda>k. Some (int k)) [1..<Suc n] \<and> set (workerMonitors m) = {f..<f + n} \<and>
          distinct (workerMonitors m)
      | Spawn_rejected err \<Rightarrow> True)"

text \<open>The workers of a pending \<^verbatim>\<open>spawn\<close> call whose \<^verbatim>\<open>START\<close> handler has run.\<close>

definition started :: "spawn_stage \<Rightarrow> nat set" where
  "started st =
     (case st of
        Bootstrapping s \<Rightarrow> {i. i < length (sp_boots s) \<and> b_runs (sp_boots s ! i) \<noteq> []}
      | _ \<Rightarrow> {})"

text \<open>
  What the runs of the handlers and the resolved snapshots say about instance numbers while
  no bootstrap has failed and no worker has emitted \<^verbatim>\<open>START\<close> twice: a run holds the number
  of its worker, a run past line 201 has written it into the worker's \<^verbatim>\<open>data\<close>, and a
  snapshot shows it.
\<close>

definition run_numbered :: "workerMonitor \<Rightarrow> run \<Rightarrow> bool" where
  "run_numbered w ru =
     (case ru of
        AwaitPidFile n \<Rightarrow> n = instanceNum w
      | AwaitSocketPath n pidFile \<Rightarrow> n = instanceNum w
      | AwaitWritePid \<Rightarrow> data w ''instanceNum'' = Some (number_value (instanceNum w))
      | Finished \<Rightarrow> True)"

definition boot_numbered :: "workerMonitor \<Rightarrow> boot \<Rightarrow> bool" where
  "boot_numbered w b =
     (list_all (run_numbered w) (b_runs b) \<and>
      (case b_promise b of
         None \<Rightarrow> True
       | Some snap \<Rightarrow> snap ''instanceNum'' = Some (number_value (instanceNum w))))"

definition entries_inv :: "nat \<Rightarrow> nat \<Rightarrow> spawn_stage \<Rightarrow> masterMonitor \<Rightarrow> bool" where
  "entries_inv f n st m =
     (case st of
        Bootstrapping s \<Rightarrow>
          sp_errors s = [] \<longrightarrow>
            (\<forall>i < length (sp_boots s). boot_numbered (workers m (f + i)) (sp_boots s ! i))
      | Spawned rep \<Rightarrow>
          errors rep = [] \<longrightarrow>
            map_option (map (\<lambda>snap. snap ''instanceNum'')) (added rep) =
              Some (map (\<lambda>r. Some (number_value (instanceNum (workers m r)))) [f..<f + n])
      | _ \<Rightarrow> True)"

section \<open>Example states\<close>

text \<open>A running orchestrator with \<open>k\<close> workers numbered \<open>1..k\<close>, used to instantiate the theorems.\<close>

definition mkWorker :: "int \<Rightarrow> workerMonitor" where
  "mkWorker n =
     \<lparr>instanceNum = Some n,
      data = [''name'' \<mapsto> JStr ''app'', ''instanceNum'' \<mapsto> JNum n,
              ''pidFile'' \<mapsto> JStr ''app.pid'', ''socketPath'' \<mapsto> JStr ''app.sock''],
      crashSt = \<lparr>status = Running, crashes = 0, lastExitCode = None, lastSignal = None\<rparr>,
      childPid = Some (1000 + n)\<rparr>"

definition fleet :: "nat \<Rightarrow> masterMonitor" where
  "fleet k =
     \<lparr>workers = (\<lambda>r. mkWorker (int r + 1)),
      workerMonitors = [0..<k],
      nextRef = k,
      socket = True,
      template = [''name'' \<mapsto> JStr ''app''],
      effects = [],
      exitCode = None\<rparr>"



text \<open>
  A fresh orchestrator (no worker, \<^verbatim>\<open>this.socket\<close> unset), the same with \<^verbatim>\<open>this.socket\<close>
  holding a server, and stand-ins for the two helpers: a positive count is kept, anything
  else counts as 1.
\<close>

definition fresh :: masterMonitor where
  "fresh =
     \<lparr>workers = (\<lambda>r. new_WorkerMonitor [''name'' \<mapsto> JStr ''app'']),
      workerMonitors = [],
      nextRef = 0,
      socket = False,
      template = [''name'' \<mapsto> JStr ''app''],
      effects = [],
      exitCode = None\<rparr>"

definition bound :: masterMonitor where
  "bound = fresh\<lparr>socket := True\<rparr>"

definition demo_helpers :: helpers where
  "demo_helpers =
     \<lparr>ensureInstanceNumber = (\<lambda>v. case v of Some (JNum n) \<Rightarrow> (if 0 < n then n else 1) | _ \<Rightarrow> 1),
      getInstanceDisplayName = (\<lambda>name n. JStr ''app'')\<rparr>"

text \<open>Every step of a bootstrap succeeding, for the bootstrap at position \<open>i\<close>.\<close>

definition boot_ok :: "nat \<Rightarrow> spawn_event list" where
  "boot_ok i = boot_script i (Boots ''run/app.pid'' ''run/app.sock'')"

text \<open>
  An example connection to an orchestrator with one worker, over a transport whose requests
  throw on a closed socket; an instance that keeps its socket, and one that does not.
\<close>

definition demo_channel :: "unit channel" where
  "demo_channel =
     \<lparr>ch_ops = (\<lambda>name. if name = ''state'' then Some state_method else None),
      ch_monitor = (), ch_STATE = ''state'', ch_closed = Threw\<rparr>"

definition demo_link :: "unit link" where
  "demo_link =
     \<lparr>server_end = \<lparr>orchestrator = fleet 1, currentWorkerMonitor = None, sent = [], server_logs = []\<rparr>,
      client_open = True\<rparr>"

definition alive :: remote_instance where
  "alive = \<lparr>keepAlive = Some (JBool True), i_socket = 1\<rparr>"

definition oneshot :: remote_instance where
  "oneshot = \<lparr>keepAlive = None, i_socket = 1\<rparr>"

section \<open>Facts about the array primitives and the shutdown stages\<close>

lemma indexOf_notin: "x \<notin> set xs \<Longrightarrow> indexOf xs x = -1"
  by (induction xs) (auto simp: Let_def)

lemma indexOf_in:
  "x \<in> set xs \<Longrightarrow> 0 \<le> indexOf xs x \<and> nat (indexOf xs x) < length xs \<and> xs ! nat (indexOf xs x) = x"
proof (induction xs)
  case Nil
  then show ?case by simp
next
  case (Cons y ys)
  show ?case
  proof (cases "y = x")
    case True
    then show ?thesis by simp
  next
    case False
    with Cons have IH: "0 \<le> indexOf ys x \<and> nat (indexOf ys x) < length ys \<and> ys ! nat (indexOf ys x) = x"
      by simp
    then have "nat (indexOf ys x + 1) = Suc (nat (indexOf ys x))" by linarith
    with False IH show ?thesis by (simp add: Let_def)
  qed
qed

lemma splice1_at: "i < length xs \<Longrightarrow> splice1 (int i) xs = take i xs @ drop (Suc i) xs"
  by (simp add: splice1_def relStart_def)

lemma set_splice1_distinct:
  assumes "distinct xs" "x \<in> set xs"
  shows "set (splice1 (indexOf xs x) xs) = set xs - {x}"
proof -
  from indexOf_in [OF assms(2)] obtain i where i: "indexOf xs x = int i" "i < length xs" "xs ! i = x"
    by (metis nat_0_le)
  have "xs = take i xs @ x # drop (Suc i) xs"
    using id_take_nth_drop [of i xs] i by simp
  then have "distinct (take i xs @ x # drop (Suc i) xs)" "set xs = set (take i xs @ x # drop (Suc i) xs)"
    using assms(1) by simp_all
  then show ?thesis using i by (auto simp: splice1_at)
qed

lemma shutDown_run_Resolved [simp]: "shutDown_run xs (Resolved, m) = (Resolved, m)"
  by (induction xs) auto

lemma shutDown_run_Rejected [simp]: "shutDown_run xs (Rejected e, m) = (Rejected e, m)"
  by (induction xs) auto

lemma findWorker_emit [simp]: "findWorker (emit e m) n = findWorker m n"
  by (simp add: findWorker_def emit_def)

lemma shutDown_run_tail_frame:
  "shutDown_run xs (t, m) = (t', m') \<Longrightarrow> (\<forall>r. t \<noteq> AwaitStop r) \<Longrightarrow>
     workerMonitors m' = workerMonitors m \<and> workers m' = workers m"
proof (induction xs arbitrary: t m)
  case Nil
  then show ?case by simp
next
  case (Cons x xs)
  show ?case
  proof (cases "exitCode m = None")
    case False
    with Cons.prems show ?thesis by simp
  next
    case True
    obtain t1 m1 where s: "shutDown_resume x t m = (t1, m1)" by (cases "shutDown_resume x t m")
    with Cons.prems True have r: "shutDown_run xs (t1, m1) = (t', m')" by simp
    from s Cons.prems(2) have fr: "workerMonitors m1 = workerMonitors m \<and> workers m1 = workers m \<and> (\<forall>r. t1 \<noteq> AwaitStop r)"
      by (cases x; cases t) (auto simp: emit_def Let_def split: if_splits)
    from Cons.IH [OF r] fr show ?thesis by simp
  qed
qed


lemma findWorker_None_iff: "findWorker m n = None \<longleftrightarrow> Some n \<notin> set (nums m)"
  by (force simp: findWorker_def nums_def find_None_iff)

lemma findWorker_SomeD:
  "findWorker m n = Some r \<Longrightarrow> r \<in> set (workerMonitors m) \<and> instanceNum (workers m r) = Some n"
  by (auto simp: findWorker_def find_Some_iff)

lemma stop_fulfilled_removes:
  assumes d: "distinct (nums m)" and f: "findWorker m n = Some r"
    and s: "shutDown_resume (Fulfil u) (AwaitStop r) (emit (Call_stop r) m) = (t1, m1)"
  shows "findWorker m1 n = None \<and> (\<forall>q. t1 \<noteq> AwaitStop q)"
proof -
  from findWorker_SomeD [OF f] have r: "r \<in> set (workerMonitors m)" "instanceNum (workers m r) = Some n"
    by simp_all
  from d have dw: "distinct (workerMonitors m)" and inj: "inj_on (\<lambda>r. instanceNum (workers m r)) (set (workerMonitors m))"
    by (simp_all add: nums_def distinct_map)
  from s have wm: "workerMonitors m1 = splice1 (indexOf (workerMonitors m) r) (workerMonitors m)"
    and ws: "workers m1 = workers m" and t1: "t1 = AwaitRemovePid (toJSON (workers m r) ''socketPath'')"
    by (auto simp: emit_def Let_def)
  have st: "set (workerMonitors m1) = set (workerMonitors m) - {r}"
    using wm set_splice1_distinct [OF dw r(1)] by simp
  have "\<forall>q \<in> set (workerMonitors m1). instanceNum (workers m q) \<noteq> Some n"
  proof
    fix q assume q: "q \<in> set (workerMonitors m1)"
    with st
    have "q \<in> set (workerMonitors m)" "q \<noteq> r" by simp_all
    with inj r show "instanceNum (workers m q) \<noteq> Some n"
      by (metis inj_onD)
  qed
  then have "findWorker m1 n = None"
    by (auto simp: findWorker_def find_None_iff ws)
  with t1 show ?thesis by simp
qed

lemma first_shutDown_leaves_none:
  assumes d: "distinct (nums m)" and s: "shutDown s1 n m = (Resolved, m1)"
  shows "findWorker m1 n = None"
proof (cases "findWorker m n")
  case None
  with s show ?thesis by (auto simp: shutDown_def shutDown_call_def)
next
  case (Some r)
  with s have run: "shutDown_run s1 (AwaitStop r, emit (Call_stop r) m) = (Resolved, m1)"
    by (simp add: shutDown_def shutDown_call_def)
  show ?thesis
  proof (cases s1)
    case Nil
    with run show ?thesis by simp
  next
    case (Cons x xs)
    show ?thesis
    proof (cases "exitCode m = None")
      case False
      with run Cons show ?thesis by (simp add: emit_def)
    next
      case True
      show ?thesis
      proof (cases x)
        case (Reject e)
        with run Cons True show ?thesis by (simp add: emit_def)
      next
        case (Fulfil u)
        obtain t2 m2 where st: "shutDown_resume (Fulfil u) (AwaitStop r) (emit (Call_stop r) m) = (t2, m2)"
          by (cases "shutDown_resume (Fulfil u) (AwaitStop r) (emit (Call_stop r) m)")
        from stop_fulfilled_removes [OF d Some st]
        have n2: "findWorker m2 n = None" and t2: "\<forall>q. t2 \<noteq> AwaitStop q" by simp_all
        from run Cons True Fulfil st have "shutDown_run xs (t2, m2) = (Resolved, m1)"
          by (simp add: emit_def)
        from shutDown_run_tail_frame [OF this t2] n2 show ?thesis
          by (simp add: findWorker_def)
      qed
    qed
  qed
qed

text \<open>
  Claim C6.  \<^verbatim>\<open>shutDown(n)\<close> for a number \<open>n\<close> that no worker of \<^verbatim>\<open>workerMonitors\<close> carries
  logs the warning and resolves, whatever is settled afterwards, and leaves the
  orchestrator as it was but for the log line.  That is also what a second \<^verbatim>\<open>shutDown(n)\<close>
  does after a first one that resolved, when instance numbers are distinct: the first call
  removed the worker, so the second finds none.
\<close>

theorem shutDown_missing_instance_noop:
  "(findWorker m n = None \<longrightarrow>
      shutDown sched n m = (Resolved, m\<lparr>effects := effects m @ [Warn_can_not_stop n]\<rparr>)) \<and>
   (distinct (nums m) \<and> shutDown first n m = (Resolved, m1) \<longrightarrow>
      shutDown sched n m1 = (Resolved, m1\<lparr>effects := effects m1 @ [Warn_can_not_stop n]\<rparr>))"
proof (intro conjI impI)
  assume "findWorker m n = None"
  then show "shutDown sched n m = (Resolved, m\<lparr>effects := effects m @ [Warn_can_not_stop n]\<rparr>)"
    by (simp add: shutDown_def shutDown_call_def emit_def)
next
  assume "distinct (nums m) \<and> shutDown first n m = (Resolved, m1)"
  then have "findWorker m1 n = None" using first_shutDown_leaves_none by blast
  then show "shutDown sched n m1 = (Resolved, m1\<lparr>effects := effects m1 @ [Warn_can_not_stop n]\<rparr>)"
    by (simp add: shutDown_def shutDown_call_def emit_def)
qed

lemma fleet2_first: "shutDown [Fulfil (), Fulfil ()] 2 (fleet 2) =
  (Resolved, (fleet 2)\<lparr>workerMonitors := [0], effects := [Call_stop 1, RemovePidFile (Some (JStr ''app.pid''))]\<rparr>)"
  by (simp add: shutDown_def shutDown_call_def findWorker_def fleet_def mkWorker_def emit_def
      toJSON_def splice1_def relStart_def Let_def upt_rec)

theorem shutDown_missing_instance_noop_witness:
  "findWorker (fleet 2) 7 = None \<and>
   shutDown [] 7 (fleet 2) = (Resolved, (fleet 2)\<lparr>effects := [Warn_can_not_stop 7]\<rparr>) \<and>
   distinct (nums (fleet 2)) \<and>
   shutDown [Fulfil (), Fulfil ()] 2 (fleet 2) =
     (Resolved, (fleet 2)\<lparr>workerMonitors := [0],
        effects := [Call_stop 1, RemovePidFile (Some (JStr ''app.pid''))]\<rparr>) \<and>
   shutDown [] 2 ((fleet 2)\<lparr>workerMonitors := [0],
        effects := [Call_stop 1, RemovePidFile (Some (JStr ''app.pid''))]\<rparr>) =
     (Resolved, (fleet 2)\<lparr>workerMonitors := [0],
        effects := [Call_stop 1, RemovePidFile (Some (JStr ''app.pid'')), Warn_can_not_stop 2]\<rparr>)"
proof -
  have a: "findWorker (fleet 2) 7 = None"
    by (simp add: findWorker_def fleet_def mkWorker_def upt_rec)
  have d: "distinct (nums (fleet 2))"
    by (simp add: nums_def fleet_def mkWorker_def upt_rec)
  note f = fleet2_first
  from shutDown_missing_instance_noop [of "fleet 2" 7 "[]" "[Fulfil (), Fulfil ()]" "fleet 2"] a
  have one: "shutDown [] 7 (fleet 2) = (Resolved, (fleet 2)\<lparr>effects := [Warn_can_not_stop 7]\<rparr>)"
    by (simp add: fleet_def)
  from shutDown_missing_instance_noop [of "fleet 2" 2 "[]" "[Fulfil (), Fulfil ()]"
      "(fleet 2)\<lparr>workerMonitors := [0], effects := [Call_stop 1, RemovePidFile (Some (JStr ''app.pid''))]\<rparr>"] d f
  have two: "shutDown [] 2 ((fleet 2)\<lparr>workerMonitors := [0],
        effects := [Call_stop 1, RemovePidFile (Some (JStr ''app.pid''))]\<rparr>) =
     (Resolved, (fleet 2)\<lparr>workerMonitors := [0],
        effects := [Call_stop 1, RemovePidFile (Some (JStr ''app.pid'')), Warn_can_not_stop 2]\<rparr>)"
    by simp
  from a one d f two show ?thesis by simp
qed

section \<open>State round trip through an instance\<close>

lemma state_loop_None: "state_loop None rs h = (map (\<lambda>r. toJSON (h r)) rs, h)"
  by (induction rs arbitrary: h) (simp_all add: Let_def)

lemma toJSON_other: "k \<noteq> ''monitor'' \<Longrightarrow> k \<noteq> ''pid'' \<Longrightarrow> toJSON w k = data w k"
  by (simp add: toJSON_def)

lemma state_loop_single:
  assumes k: "k \<noteq> ''monitor''" "k \<noteq> ''pid''"
  shows
  "list_all (\<lambda>s. s k = Some v) (fst (state_loop (Some (JObj [(k, v)])) rs h)) \<and>
   length (fst (state_loop (Some (JObj [(k, v)])) rs h)) = length rs \<and>
   (\<forall>r \<in> set rs. data (snd (state_loop (Some (JObj [(k, v)])) rs h) r) k = Some v) \<and>
   (\<forall>r. data (h r) k = Some v \<longrightarrow> data (snd (state_loop (Some (JObj [(k, v)])) rs h) r) k = Some v)"
proof (induction rs arbitrary: h)
  case Nil
  show ?case by simp
next
  case (Cons r rs)
  define h1 where "h1 = h(r := (h r)\<lparr>data := assign (data (h r)) [(k, v)]\<rparr>)"
  have step: "state_loop (Some (JObj [(k, v)])) (r # rs) h =
      (toJSON (h1 r) # fst (state_loop (Some (JObj [(k, v)])) rs h1), snd (state_loop (Some (JObj [(k, v)])) rs h1))"
    by (simp add: Let_def h1_def)
  have here: "data (h1 r) k = Some v" by (simp add: h1_def assign_def)
  have keep: "\<And>q. data (h q) k = Some v \<Longrightarrow> data (h1 q) k = Some v"
    by (simp add: h1_def assign_def)
  from Cons.IH [of h1] here keep show ?case
    unfolding step by (auto simp: toJSON_other [OF k])
qed



lemma request_state:
  assumes "ch_ops ch (ch_STATE ch) = Some state_method" "ch_STATE ch \<noteq> []" "client_open l"
  shows "request ch (ch_STATE ch) args l =
     (Replied (StateList (fst (state (case args of [] \<Rightarrow> None | a # rest \<Rightarrow> Some a) (orchestrator (server_end l))))),
      l\<lparr>server_end := (server_end l)\<lparr>
            orchestrator := snd (state (case args of [] \<Rightarrow> None | a # rest \<Rightarrow> Some a) (orchestrator (server_end l))),
            currentWorkerMonitor := Some (ch_monitor ch),
            sent := sent (server_end l) @ [(ch_STATE ch, StateList (fst (state (case args of [] \<Rightarrow> None | a # rest \<Rightarrow> Some a) (orchestrator (server_end l)))))]\<rparr>\<rparr>)"
  using assms by (simp add: request_def listener_def state_method_def Let_def)

lemma getState_args_open:
  assumes "ch_ops ch (ch_STATE ch) = Some state_method" "ch_STATE ch \<noteq> []" "client_open l"
  shows "fst (Instance_getState_args ch inst args l) =
           Returned (Some (StateList (fst (state (case args of [] \<Rightarrow> None | a # rest \<Rightarrow> Some a) (orchestrator (server_end l))))))"
    and "orchestrator (server_end (snd (Instance_getState_args ch inst args l))) =
           snd (state (case args of [] \<Rightarrow> None | a # rest \<Rightarrow> Some a) (orchestrator (server_end l)))"
    and "client_open (snd (Instance_getState_args ch inst args l)) = truthy (keepAlive inst)"
  using assms
  by (simp_all add: Instance_getState_args_def getState_on_def request_state response_of_def)

lemma getState_args_closed:
  assumes "\<not> client_open l"
  shows "fst (Instance_getState_args ch inst args l) =
           (case ch_closed ch of Replied x \<Rightarrow> Returned (Some x) | Threw \<Rightarrow> Returned None | No_reply \<Rightarrow> Pending)"
  using assms
  by (simp add: Instance_getState_args_def getState_on_def request_def response_of_def
      split: request_result.split)



lemma demo_set_alive:
  "map (\<lambda>s. s ''hello'')
     (states_of (fst (Instance_getState demo_channel alive
        (snd (Instance_setState demo_channel alive (JObj [(''hello'', JStr ''world'')]) demo_link)))))
   = [Some (JStr ''world'')]"
  by (simp add: Instance_getState_def Instance_setState_def Instance_getState_args_def getState_on_def
      request_def listener_def state_method_def response_of_def state_def Let_def state_loop_None
      toJSON_def fleet_def mkWorker_def assign_def demo_channel_def demo_link_def alive_def)

lemma demo_set_reply:
  "map (\<lambda>s. s ''hello'')
     (states_of (fst (Instance_setState demo_channel alive (JObj [(''hello'', JStr ''world'')]) demo_link)))
   = [Some (JStr ''world'')]"
  by (simp add: Instance_getState_def Instance_setState_def Instance_getState_args_def getState_on_def
      request_def listener_def state_method_def response_of_def state_def Let_def state_loop_None
      toJSON_def fleet_def mkWorker_def assign_def demo_channel_def demo_link_def alive_def)

lemma demo_unset:
  "map (\<lambda>s. s ''hello'') (states_of (fst (Instance_getState demo_channel alive demo_link))) = [None]"
  by (simp add: Instance_getState_def Instance_setState_def Instance_getState_args_def getState_on_def
      request_def listener_def state_method_def response_of_def state_def Let_def state_loop_None
      toJSON_def fleet_def mkWorker_def assign_def demo_channel_def demo_link_def alive_def)


section \<open>Control Channel dispatch\<close>

text \<open>
  Claim C7.  For an inbound message that names a method (a non-empty \<^verbatim>\<open>method\<close>; the
  handler returns at once on any other message): when the name is not a function of the
  orchestrator, the server logs the warning and sends nothing; when the call throws or
  rejects, the server logs the error and sends nothing; when the call resolves to a
  \<^verbatim>\<open>REQUEST\<close>, the server sends the method name with the result on the same connection and
  logs nothing.  A \<^verbatim>\<open>PUBLISH\<close> is dispatched the same way (same orchestrator state, same
  log) and never answered.
\<close>

theorem listener_replies_only_to_resolved_requests:
  assumes "msg_method d = Some method" and "method \<noteq> []"
    and "args = (case msg_args d of None \<Rightarrow> [] | Some a \<Rightarrow> a)"
  shows
    "(ops method = None \<longrightarrow>
        sent (listener ops w event (Some d) c) = sent c \<and>
        server_logs (listener ops w event (Some d) c) = server_logs c @ [Warn_not_supported method] \<and>
        orchestrator (listener ops w event (Some d) c) = orchestrator c) \<and>
     (ops method = Some f \<and> f args (orchestrator c) = (Some (Reject err), s) \<longrightarrow>
        sent (listener ops w event (Some d) c) = sent c \<and>
        server_logs (listener ops w event (Some d) c) = server_logs c @ [Error_failed_to_handle method err]) \<and>
     (ops method = Some f \<and> f args (orchestrator c) = (Some (Fulfil resp), s) \<longrightarrow>
        sent (listener ops w REQUEST (Some d) c) = sent c @ [(method, resp)] \<and>
        server_logs (listener ops w REQUEST (Some d) c) = server_logs c \<and>
        orchestrator (listener ops w REQUEST (Some d) c) = s) \<and>
     sent (listener ops w PUBLISH (Some d) c) = sent c \<and>
     orchestrator (listener ops w PUBLISH (Some d) c) = orchestrator (listener ops w REQUEST (Some d) c) \<and>
     server_logs (listener ops w PUBLISH (Some d) c) = server_logs (listener ops w REQUEST (Some d) c)"
proof (intro conjI impI)
  assume "ops method = None"
  with assms show "sent (listener ops w event (Some d) c) = sent c"
    "server_logs (listener ops w event (Some d) c) = server_logs c @ [Warn_not_supported method]"
    "orchestrator (listener ops w event (Some d) c) = orchestrator c"
    by (simp_all add: listener_def Let_def)
next
  assume "ops method = Some f \<and> f args (orchestrator c) = (Some (Reject err), s)"
  with assms show "sent (listener ops w event (Some d) c) = sent c"
    "server_logs (listener ops w event (Some d) c) = server_logs c @ [Error_failed_to_handle method err]"
    by (simp_all add: listener_def Let_def)
next
  assume "ops method = Some f \<and> f args (orchestrator c) = (Some (Fulfil resp), s)"
  with assms show "sent (listener ops w REQUEST (Some d) c) = sent c @ [(method, resp)]"
    "server_logs (listener ops w REQUEST (Some d) c) = server_logs c"
    "orchestrator (listener ops w REQUEST (Some d) c) = s"
    by (simp_all add: listener_def Let_def)
next
  from assms show "sent (listener ops w PUBLISH (Some d) c) = sent c"
    by (simp add: listener_def Let_def split: option.splits prod.splits settle.splits)
  from assms show "orchestrator (listener ops w PUBLISH (Some d) c) = orchestrator (listener ops w REQUEST (Some d) c)"
    by (simp add: listener_def Let_def split: option.splits prod.splits settle.splits)
  from assms show "server_logs (listener ops w PUBLISH (Some d) c) = server_logs (listener ops w REQUEST (Some d) c)"
    by (simp add: listener_def Let_def split: option.splits prod.splits settle.splits)
qed

theorem listener_replies_only_to_resolved_requests_witness:
  "listener demo_ops 7 REQUEST (Some \<lparr>msg_method = Some ''restart'', msg_args = None\<rparr>) demo_conn =
     \<lparr>orchestrator = 1, currentWorkerMonitor = Some 7, sent = [(''restart'', JNum 1)], server_logs = []\<rparr> \<and>
   listener demo_ops 7 PUBLISH (Some \<lparr>msg_method = Some ''restart'', msg_args = None\<rparr>) demo_conn =
     \<lparr>orchestrator = 1, currentWorkerMonitor = Some 7, sent = [], server_logs = []\<rparr> \<and>
   listener demo_ops 7 REQUEST (Some \<lparr>msg_method = Some ''scale'', msg_args = Some [JNum 2]\<rparr>) demo_conn =
     \<lparr>orchestrator = 0, currentWorkerMonitor = Some 7, sent = [],
      server_logs = [Error_failed_to_handle ''scale'' (Failure ''boom'')]\<rparr> \<and>
   listener demo_ops 7 REQUEST (Some \<lparr>msg_method = Some ''nope'', msg_args = None\<rparr>) demo_conn =
     \<lparr>orchestrator = 0, currentWorkerMonitor = Some 7, sent = [],
      server_logs = [Warn_not_supported ''nope'']\<rparr>"
proof -
  have a: "sent (listener demo_ops (7::nat) REQUEST (Some \<lparr>msg_method = Some ''restart'', msg_args = None\<rparr>) demo_conn)
      = sent demo_conn @ [(''restart'', JNum 1)]"
    using listener_replies_only_to_resolved_requests
      [of "\<lparr>msg_method = Some ''restart'', msg_args = None\<rparr>" "''restart''" "[]" demo_ops
          7 REQUEST demo_conn "\<lambda>args s. (Some (Fulfil (JNum 1)), Suc s)" "Failure ''x''" 1 "JNum 1"]
    by (simp add: demo_ops_def demo_conn_def)
  have b: "sent (listener demo_ops (7::nat) REQUEST (Some \<lparr>msg_method = Some ''nope'', msg_args = None\<rparr>) demo_conn)
      = sent demo_conn"
    using listener_replies_only_to_resolved_requests
      [of "\<lparr>msg_method = Some ''nope'', msg_args = None\<rparr>" "''nope''" "[]" demo_ops
          7 REQUEST demo_conn "\<lambda>args s. (Some (Fulfil (JNum 1)), Suc s)" "Failure ''x''" 1 "JNum 1"]
    by (simp add: demo_ops_def demo_conn_def)
  have c: "sent (listener demo_ops (7::nat) REQUEST (Some \<lparr>msg_method = Some ''scale'', msg_args = Some [JNum 2]\<rparr>) demo_conn)
      = sent demo_conn"
    using listener_replies_only_to_resolved_requests
      [of "\<lparr>msg_method = Some ''scale'', msg_args = Some [JNum 2]\<rparr>" "''scale''" "[JNum 2]" demo_ops
          7 REQUEST demo_conn "\<lambda>args s. (Some (Reject (Failure ''boom'')), s)" "Failure ''boom''" 0 "JNum 1"]
    by (simp add: demo_ops_def demo_conn_def)
  from a b c show ?thesis
    by (simp add: listener_def demo_ops_def demo_conn_def Let_def)
qed

section \<open>Discovery reconciliation\<close>

lemma fst_getState: "fst (getState env sock d) = fst (getState env sock d0)"
  by (simp add: getState_def Let_def split: response.split option.split)

lemma files_getState [simp]: "files (snd (getState env sock d)) = files d"
  by (simp add: getState_def Let_def split: response.split option.split)

lemma fst_startClient:
  "fst (startClient env path d) = (case createClient env path of Inr sock \<Rightarrow> Some sock | Inl code \<Rightarrow> None)"
  by (simp add: startClient_def split: sum.split)

lemma files_startClient:
  "files (snd (startClient env path d)) =
     (if \<not> isWin env \<and> no_listener env path then files d - {path} else files d)"
  by (auto simp: startClient_def no_listener_def removeDomainSocketFile_def split: sum.split)

lemma files_removeDomainSocketFile:
  "files (removeDomainSocketFile env path d) = (if isWin env then files d else files d - {path})"
  by (simp add: removeDomainSocketFile_def)

lemma pidPass_keys:
  "map r_key (fst (pidPass env ps d)) = map p_key (filter (live_pid env) ps)"
proof (induction ps arbitrary: d)
  case Nil
  show ?case by simp
next
  case (Cons p ps)
  show ?case
  proof (cases "createClient env (getSocketPath env (p_key p))")
    case (Inl code)
    with Cons.IH show ?thesis by (simp add: Let_def fst_startClient live_pid_def)
  next
    case (Inr sock)
    with Cons.IH show ?thesis by (simp add: Let_def fst_startClient live_pid_def)
  qed
qed

lemma removals_getState [simp]: "removals_started (snd (getState env sock d)) = removals_started d"
  by (simp add: getState_def Let_def split: response.split option.split)

lemma removals_startClient [simp]:
  "removals_started (snd (startClient env path d)) = removals_started d"
  by (simp add: startClient_def removeDomainSocketFile_def split: sum.split)

lemma pidPass_step:
  "pidPass env (p # ps) d =
     (let d1 = snd (startClient env (getSocketPath env (p_key p)) d);
          here = (case createClient env (getSocketPath env (p_key p)) of
                    Inr sock \<Rightarrow>
                      ([\<lparr>r_key = p_key p, r_socket = sock, r_pid = Some (JNum (p_pid p)),
                         r_pidFile = Some (JStr (p_pidFile p)),
                         r_socketPath = getSocketPath env (p_key p)\<rparr>], d1)
                  | Inl code \<Rightarrow>
                      ([], removeDomainSocketFile_unawaited env (getSocketPath env (p_key p)) d1))
      in (fst here @ fst (pidPass env ps (snd here)), snd (pidPass env ps (snd here))))"
  by (simp add: Let_def fst_startClient split: sum.split)

lemma pidPass_files:
  "files (snd (pidPass env ps d)) =
     (if isWin env then files d
      else files d - {getSocketPath env (p_key p) | p. p \<in> set ps \<and> no_listener env (getSocketPath env (p_key p))})"
proof (induction ps arbitrary: d)
  case Nil
  then show ?case by simp
next
  case (Cons p ps)
  define path where "path = getSocketPath env (p_key p)"
  define d1 where "d1 = snd (startClient env path d)"
  have f1: "files d1 = (if \<not> isWin env \<and> no_listener env path then files d - {path} else files d)"
    by (simp add: d1_def files_startClient)
  show ?case
  proof (cases "createClient env path")
    case (Inr sock)
    then have nl: "\<not> no_listener env path" by (simp add: no_listener_def)
    have "files (snd (pidPass env (p # ps) d)) = files (snd (pidPass env ps d1))"
      unfolding pidPass_step using Inr by (simp add: Let_def path_def d1_def)
    then show ?thesis
      using Cons.IH [of d1] f1 nl by (auto simp: path_def)
  next
    case (Inl code)
    define d2 where "d2 = removeDomainSocketFile_unawaited env path d1"
    have f2: "files d2 = files d1" by (simp add: d2_def removeDomainSocketFile_unawaited_def)
    have "files (snd (pidPass env (p # ps) d)) = files (snd (pidPass env ps d2))"
      unfolding pidPass_step using Inl by (simp add: Let_def path_def d1_def d2_def)
    then show ?thesis
      using Cons.IH [of d2] f1 f2 by (auto simp: path_def)
  qed
qed

lemma pidPass_removals:
  "removals_started (snd (pidPass env ps d)) =
     removals_started d @
       (if isWin env then [] else map (\<lambda>p. getSocketPath env (p_key p)) (filter (\<lambda>p. \<not> live_pid env p) ps))"
proof (induction ps arbitrary: d)
  case Nil
  then show ?case by simp
next
  case (Cons p ps)
  define path where "path = getSocketPath env (p_key p)"
  define d1 where "d1 = snd (startClient env path d)"
  have r1: "removals_started d1 = removals_started d" by (simp add: d1_def)
  show ?case
  proof (cases "createClient env path")
    case (Inr sock)
    then have lp: "live_pid env p" by (simp add: live_pid_def path_def)
    have "removals_started (snd (pidPass env (p # ps) d)) = removals_started (snd (pidPass env ps d1))"
      unfolding pidPass_step using Inr by (simp add: Let_def path_def d1_def)
    then show ?thesis
      using Cons.IH [of d1] r1 lp by simp
  next
    case (Inl code)
    then have lp: "\<not> live_pid env p" by (simp add: live_pid_def path_def)
    define d2 where "d2 = removeDomainSocketFile_unawaited env path d1"
    have r2: "removals_started d2 = removals_started d @ (if isWin env then [] else [path])"
      by (simp add: d2_def removeDomainSocketFile_unawaited_def r1)
    have "removals_started (snd (pidPass env (p # ps) d)) = removals_started (snd (pidPass env ps d2))"
      unfolding pidPass_step using Inl by (simp add: Let_def path_def d1_def d2_def)
    then show ?thesis
      using Cons.IH [of d2] r2 lp by (simp add: path_def)
  qed
qed

lemma zombiePass_keys:
  "map r_key (fst (zombiePass env ss d)) = map s_key (filter (live_socket env) ss)"
proof (induction ss arbitrary: d)
  case Nil
  show ?case by simp
next
  case (Cons s ss)
  show ?case
  proof (cases "createClient env (s_socketPath s)")
    case (Inl code)
    then show ?thesis using Cons.IH
      by (simp add: Let_def fst_startClient live_socket_def)
  next
    case (Inr sock)
    show ?thesis
    proof (cases "request_STATE env sock")
      case Request_failed
      with Inr Cons.IH show ?thesis
        by (simp add: Let_def fst_startClient live_socket_def getState_def)
    next
      case Falsy
      with Inr Cons.IH show ?thesis
        by (simp add: Let_def fst_startClient live_socket_def getState_def)
    next
      case (Object st dat)
      with Inr Cons.IH show ?thesis
        by (cases dat) (simp_all add: Let_def fst_startClient live_socket_def getState_def)
    qed
  qed
qed



lemma zombiePass_files:
  "\<not> isWin env \<Longrightarrow>
   files (snd (zombiePass env ss d)) =
     files d - {s_socketPath s | s. s \<in> set ss \<and> no_listener env (s_socketPath s)}"
proof (induction ss arbitrary: d)
  case Nil
  then show ?case by simp
next
  case (Cons s ss)
  define d1 where "d1 = snd (case fst (startClient env (s_socketPath s) d) of
                    None \<Rightarrow> ([], snd (startClient env (s_socketPath s) d))
                  | Some sock \<Rightarrow>
                     (let got = getState env sock (snd (startClient env (s_socketPath s) d))
                      in case fst got of
                           None \<Rightarrow> ([], snd got)
                         | Some st \<Rightarrow>
                             ([\<lparr>r_key = s_key s, r_socket = sock, r_pid = st ''pid'',
                                r_pidFile = st ''pidFile'', r_socketPath = s_socketPath s\<rparr>],
                              snd got)))"
  have f1: "files d1 = (if no_listener env (s_socketPath s) then files d - {s_socketPath s} else files d)"
    using Cons.prems
    by (simp add: d1_def Let_def files_startClient split: option.split)
  have "files (snd (zombiePass env (s # ss) d)) = files (snd (zombiePass env ss d1))"
    by (simp add: Let_def d1_def)
  also have "\<dots> = files d1 - {s_socketPath q | q. q \<in> set ss \<and> no_listener env (s_socketPath q)}"
    using Cons.IH [OF Cons.prems] by simp
  also have "\<dots> = files d - {s_socketPath q | q. q \<in> set (s # ss) \<and> no_listener env (s_socketPath q)}"
    using f1 by auto
  finally show ?case .
qed



lemma byName_step:
  "byName env name (r # rs) d =
     (let here = (case fst (getState env (r_socket r) d) of
                    None \<Rightarrow> ([], snd (getState env (r_socket r) d))
                  | Some st \<Rightarrow>
                      if name = st ''name'' then ([r], snd (getState env (r_socket r) d))
                      else ([], (snd (getState env (r_socket r) d))
                             \<lparr>closed := closed (snd (getState env (r_socket r) d)) @ [r_socket r]\<rparr>))
      in (fst here @ fst (byName env name rs (snd here)), snd (byName env name rs (snd here))))"
  by (simp add: Let_def)

lemma byName_filter: "fst (byName env name refs d) = filter (named env name) refs"
proof (induction refs arbitrary: d)
  case Nil
  show ?case by simp
next
  case (Cons r rs)
  have g: "fst (getState env (r_socket r) d) = answered env (r_socket r)"
    unfolding answered_def by (rule fst_getState)
  show ?case
  proof (cases "fst (getState env (r_socket r) d)")
    case None
    then show ?thesis
      unfolding byName_step using g by (simp add: Let_def Cons.IH named_def answered_def)
  next
    case (Some st)
    then show ?thesis
      unfolding byName_step using g by (simp add: Let_def Cons.IH named_def answered_def)
  qed
qed

lemma files_byName: "files (snd (byName env name refs d)) = files d"
proof (induction refs arbitrary: d)
  case Nil
  show ?case by simp
next
  case (Cons r rs)
  show ?case
  proof (cases "fst (getState env (r_socket r) d)")
    case None
    then show ?thesis
      unfolding byName_step by (simp add: Let_def Cons.IH)
  next
    case (Some st)
    then show ?thesis
      unfolding byName_step by (simp add: Let_def Cons.IH)
  qed
qed

lemma byKey_step:
  "byKey env key (r # rs) (res, d) =
     byKey env key rs
       (case fst (getState env (r_socket r) d) of
          None \<Rightarrow> (res, snd (getState env (r_socket r) d))
        | Some st \<Rightarrow>
            if key = st ''key'' then (Some r, snd (getState env (r_socket r) d))
            else (res, (snd (getState env (r_socket r) d))
                   \<lparr>closed := closed (snd (getState env (r_socket r) d)) @ [r_socket r]\<rparr>))"
  by (simp add: Let_def)

lemma files_byKey: "files (snd (byKey env key refs acc)) = files (snd acc)"
proof (induction refs arbitrary: acc)
  case Nil
  show ?case by simp
next
  case (Cons r rs)
  obtain res d where acc: "acc = (res, d)" by (cases acc)
  show ?case
    unfolding acc byKey_step Cons.IH
    by (simp split: option.split)
qed


lemma once_in_distinct:
  "distinct xs \<Longrightarrow> x \<in> set xs \<Longrightarrow> length (filter (\<lambda>y. y = x) xs) = 1"
  by (induction xs) (auto simp: filter_empty_conv)

lemma times_included_keys:
  "times_included k refs = length (filter (\<lambda>y. y = k) (map r_key refs))"
  by (simp add: times_included_def filter_map comp_def)

lemma getAll_keys:
  "\<not> isWin env \<Longrightarrow>
   map r_key (fst (getAll env d)) =
     map p_key (filter (live_pid env) (pidRefs env)) @
     map s_key (filter (live_socket env) (differenceWith (socketRefs env) (pidRefs env)))"
  by (simp add: getAll_def Let_def pidPass_keys zombiePass_keys)

lemma zombiePass_removals [simp]:
  "removals_started (snd (zombiePass env ss d)) = removals_started d"
proof (induction ss arbitrary: d)
  case Nil
  show ?case by simp
next
  case (Cons s ss)
  show ?case
    by (simp add: Let_def Cons.IH split: option.split)
qed

lemma getAll_files:
  "\<not> isWin env \<Longrightarrow>
   files (snd (getAll env d)) =
     files d - {getSocketPath env (p_key p) | p. p \<in> set (pidRefs env) \<and>
                  no_listener env (getSocketPath env (p_key p))}
       - {s_socketPath s | s. s \<in> set (differenceWith (socketRefs env) (pidRefs env)) \<and>
             no_listener env (s_socketPath s)}"
  by (simp add: getAll_def Let_def pidPass_files zombiePass_files)

lemma getAll_files_windows: "isWin env \<Longrightarrow> files (snd (getAll env d)) = files d"
  by (simp add: getAll_def Let_def pidPass_files)

lemma getAll_removals:
  "\<not> isWin env \<Longrightarrow>
   removals_started (snd (getAll env d)) =
     removals_started d @
       map (\<lambda>p. getSocketPath env (p_key p)) (filter (\<lambda>p. \<not> live_pid env p) (pidRefs env))"
  by (simp add: getAll_def Let_def pidPass_removals)

lemma byKey_result:
  "fst (byKey env key refs (res, d)) =
     (case filter (keyed env key) refs of [] \<Rightarrow> res | r # rs \<Rightarrow> Some (last (r # rs)))"
proof (induction refs arbitrary: res d)
  case Nil
  show ?case by simp
next
  case (Cons r rs)
  have g: "fst (getState env (r_socket r) d) = answered env (r_socket r)"
    unfolding answered_def by (rule fst_getState)
  show ?case
  proof (cases "fst (getState env (r_socket r) d)")
    case None
    with g have nk: "\<not> keyed env key r" by (simp add: keyed_def)
    show ?thesis
      unfolding byKey_step using None nk by (simp add: Cons.IH)
  next
    case (Some st)
    show ?thesis
    proof (cases "key = st ''key''")
      case True
      with Some g have k: "keyed env key r" by (simp add: keyed_def)
      have "byKey env key (r # rs) (res, d) = byKey env key rs (Some r, snd (getState env (r_socket r) d))"
        unfolding byKey_step using Some True by simp
      then show ?thesis
        using k by (simp add: Cons.IH split: list.split)
    next
      case False
      with Some g have nk: "\<not> keyed env key r" by (simp add: keyed_def)
      show ?thesis
        unfolding byKey_step using Some False nk by (simp add: Cons.IH)
    qed
  qed
qed

lemma getByKey_result:
  "fst (getByKey env key d) =
     (case filter (keyed env key) (fst (getAll env d)) of [] \<Rightarrow> None | r # rs \<Rightarrow> Some (last (r # rs)))"
  by (simp add: getByKey_def Let_def byKey_result)

lemma getAll_keys_distinct:
  assumes "\<not> isWin env" "distinct (map p_key (pidRefs env))" "distinct (map s_key (socketRefs env))"
  shows "distinct (map r_key (fst (getAll env d)))"
proof -
  have a: "distinct (map p_key (filter (live_pid env) (pidRefs env)))"
    using assms(2) by (rule distinct_map_filter)
  have b: "distinct (map s_key (filter (live_socket env) (differenceWith (socketRefs env) (pidRefs env))))"
    unfolding differenceWith_def using assms(3) by (simp add: distinct_map_filter)
  have c: "set (map p_key (filter (live_pid env) (pidRefs env))) \<inter>
           set (map s_key (filter (live_socket env) (differenceWith (socketRefs env) (pidRefs env)))) = {}"
    by (auto simp: differenceWith_def list_ex_iff)
  from a b c show ?thesis
    unfolding getAll_keys [OF assms(1)] by simp
qed





lemma demo_getAll:
  "getAll demo_env demo_disk =
     ([\<lparr>r_key = ''a'', r_socket = 1, r_pid = Some (JNum 11), r_pidFile = Some (JStr ''run/a.pid''),
        r_socketPath = ''run/a.sock''\<rparr>,
       \<lparr>r_key = ''c'', r_socket = 3, r_pid = Some (JNum 13), r_pidFile = None,
        r_socketPath = ''run/c.sock''\<rparr>],
      \<lparr>files = {''run/a.sock'', ''run/c.sock''}, removals_started = [''run/b.sock''],
       closed = [], socket_errors = []\<rparr>)"
  by (simp add: getAll_def demo_env_def demo_disk_def Let_def startClient_def
      removeDomainSocketFile_def removeDomainSocketFile_unawaited_def differenceWith_def
      getState_def insert_Diff_if)

lemma demo_getByKey:
  "fst (getByKey demo_env (Some (JStr ''c'')) demo_disk) =
     Some \<lparr>r_key = ''c'', r_socket = 3, r_pid = Some (JNum 13), r_pidFile = None,
        r_socketPath = ''run/c.sock''\<rparr>"
  unfolding getByKey_result demo_getAll
  by (simp add: keyed_def answered_def getState_def demo_env_def)


section \<open>\<^verbatim>\<open>Instance.getInstanceByKey\<close>\<close>

text \<open>
  Claim C10.  \<^verbatim>\<open>getByKey\<close> returns one \<^verbatim>\<open>ConnectionRef\<close> or \<^verbatim>\<open>undefined\<close>, never an array,
  and \<^verbatim>\<open>getInstanceByKey\<close> calls \<^verbatim>\<open>.map\<close> on it: for every key, options and directory
  the call throws a \<^verbatim>\<open>TypeError\<close> and returns no instances.
\<close>

theorem getInstanceByKey_never_succeeds:
  "fst (getInstanceByKey env key options d) = Inl TypeError"
  by (simp add: getInstanceByKey_def Let_def split: option.split)

section \<open>The report of \<^verbatim>\<open>spawn\<close>\<close>

lemma all_booted_snapshots:
  "list_all is_Booted bs \<Longrightarrow> length (concat (map snapshot_of bs)) = length bs"
  by (induction bs) (auto simp: is_Booted_def snapshot_of_def)

lemma join_report_ok: "length (sp_boots s) = n \<Longrightarrow> report_ok n (join s)"
  by (simp add: report_ok_def join_def all_booted_snapshots)

lemma bootstrap_all_report_ok: "report_ok (length refs) (fst (bootstrap_all refs m))"
  unfolding bootstrap_all_def by (simp add: join_report_ok)

lemma spawn_resume_report_ok:
  assumes "report_ok n st"
  shows "report_ok n (fst (spawn_resume hp ev st m))"
proof (cases st)
  case (Await_getSocketPath refs)
  with assms have "length refs = n" by (simp add: report_ok_def)
  with Await_getSocketPath bootstrap_all_report_ok [of refs "m\<lparr>socket := False\<rparr>"] show ?thesis
    by (cases ev; cases "case ev of Got_socketPath x \<Rightarrow> x | _ \<Rightarrow> Reject TypeError")
       (auto simp: report_ok_def split: settle.split)
next
  case (Bootstrapping s)
  with assms have len: "length (sp_boots s) = n" by (simp add: report_ok_def)
  show ?thesis
  proof (cases ev)
    case (Boot i bev)
    with Bootstrapping len assms show ?thesis
      by (simp add: Let_def join_report_ok)
  next
    case (Got_socketPath x)
    with Bootstrapping assms show ?thesis by simp
  qed
next
  case (Spawned rep)
  with assms show ?thesis by simp
next
  case (Spawn_rejected e)
  then show ?thesis by (simp add: report_ok_def)
qed

lemma spawn_run_report_ok:
  assumes "report_ok n st"
  shows "report_ok n (fst (spawn_run hp evs (st, m)))"
  using assms
proof (induction evs arbitrary: st m)
  case Nil
  then show ?case by simp
next
  case (Cons ev evs)
  show ?case
  proof (cases "exitCode m = None")
    case False
    with Cons.prems show ?thesis by auto
  next
    case True
    from Cons.IH [OF spawn_resume_report_ok [OF Cons.prems, of hp ev m], of "snd (spawn_resume hp ev st m)"] True
    show ?thesis by simp
  qed
qed

lemma spawn_call_report_ok:
  assumes "0 \<le> ensureInstanceNumber hp instances"
  shows "report_ok (nat (ensureInstanceNumber hp instances)) (fst (spawn_call hp instances m))"
proof -
  define k where "k = nat (ensureInstanceNumber hp instances)"
  have "report_ok (length [nextRef m..<nextRef m + k]) (fst (bootstrap_all [nextRef m..<nextRef m + k] mm))" for mm
    by (rule bootstrap_all_report_ok)
  then have b: "report_ok k (fst (bootstrap_all [nextRef m..<nextRef m + k] mm))" for mm by simp
  show ?thesis
    using assms b
    by (auto simp: spawn_call_def Let_def k_def [symmetric] report_ok_def)
qed

lemma spawn_run_rejected [simp]: "spawn_run hp evs (Spawn_rejected e, m) = (Spawn_rejected e, m)"
  by (induction evs) auto

lemma spawn_run_Spawned [simp]: "spawn_run hp evs (Spawned rep, m) = (Spawned rep, m)"
  by (induction evs) auto

lemma started_in_append: "started_in (P @ Q) i = (started_in P i \<or> started_in Q i)"
  by (simp add: started_in_def)

lemma finished_in_append: "finished_in (P @ Q) i = (finished_in P i \<or> finished_in Q i)"
  by (simp add: finished_in_def)

lemma seen_mono: "seen n P st \<Longrightarrow> seen n (P @ Q) st"
  by (auto simp: seen_def started_in_append finished_in_append split: spawn_stage.splits)

lemma run_resume_finishing:
  "fst (run_resume hp x ru r m) = Finished \<Longrightarrow> ru \<noteq> Finished \<Longrightarrow> finishing x"
  by (cases "(hp, x, ru, r, m)" rule: run_resume.cases) (auto simp: Let_def run_failed_def)

lemma boot_resume_seen:
  assumes r: "boot_resume hp ev b r m errs = (b', m', errs')"
    and old: "(b_runs b \<noteq> [] \<longrightarrow> started_in P i) \<and> (is_Booted b \<longrightarrow> started_in P i \<and> finished_in P i)"
  shows "(b_runs b' \<noteq> [] \<longrightarrow> started_in (P @ [Boot i ev]) i) \<and>
         (is_Booted b' \<longrightarrow> started_in (P @ [Boot i ev]) i \<and> finished_in (P @ [Boot i ev]) i)"
proof (cases ev)
  case START
  with r have "is_Booted b' = is_Booted b" by (auto simp: boot_resume_def Let_def is_Booted_def)
  with old START show ?thesis
    by (auto simp: started_in_append finished_in_append started_in_def)
next
  case (Settled j x)
  show ?thesis
  proof (cases "j < length (b_runs b)")
    case False
    with r Settled have "b' = b" by (simp add: boot_resume_def)
    with old show ?thesis by (auto simp: started_in_append finished_in_append)
  next
    case True
    then have ne: "b_runs b \<noteq> []" by auto
    with old have s: "started_in P i" by simp
    have "finished_in (P @ [Boot i ev]) i" if "is_Booted b'"
    proof (cases "is_Booted b")
      case True
      with old show ?thesis by (simp add: finished_in_append)
    next
      case False
      with that r Settled \<open>j < length (b_runs b)\<close>
      have "fst (run_resume hp x (b_runs b ! j) r m) = Finished \<and> b_runs b ! j \<noteq> Finished"
        by (auto simp: boot_resume_def Let_def is_Booted_def split: if_splits)
      then have "finishing x" using run_resume_finishing by blast
      then show ?thesis using Settled by (simp add: finished_in_append finished_in_def)
    qed
    with s show ?thesis by (auto simp: started_in_append)
  qed
qed

lemma join_seen:
  assumes "length (sp_boots s) = n"
    and "\<forall>i < n. (b_runs (sp_boots s ! i) \<noteq> [] \<longrightarrow> started_in P i) \<and>
                   (is_Booted (sp_boots s ! i) \<longrightarrow> started_in P i \<and> finished_in P i)"
  shows "seen n P (join s)"
  using assms by (auto simp: join_def seen_def list_all_length)

lemma spawn_resume_seen:
  assumes "seen n P st" "report_ok n st"
  shows "seen n (P @ [ev]) (fst (spawn_resume hp ev st m))"
proof (cases st)
  case (Await_getSocketPath refs)
  from assms(2) Await_getSocketPath have len: "length refs = n" by (simp add: report_ok_def)
  have "seen n (P @ [ev]) (fst (bootstrap_all refs mm))" for mm
    unfolding bootstrap_all_def using len by (simp add: join_seen is_Booted_def)
  with Await_getSocketPath show ?thesis
    by (cases ev; cases "case ev of Got_socketPath x \<Rightarrow> x | _ \<Rightarrow> Reject TypeError")
       (auto simp: seen_def split: settle.split)
next
  case (Bootstrapping s)
  with assms(1) have len: "length (sp_boots s) = n"
    and old: "\<forall>i < n. (b_runs (sp_boots s ! i) \<noteq> [] \<longrightarrow> started_in P i) \<and>
                   (is_Booted (sp_boots s ! i) \<longrightarrow> started_in P i \<and> finished_in P i)"
    by (simp_all add: seen_def)
  show ?thesis
  proof (cases ev)
    case (Got_socketPath x)
    with Bootstrapping assms(1) seen_mono show ?thesis by simp
  next
    case (Boot i bev)
    show ?thesis
    proof (cases "i < length (sp_boots s)")
      case False
      with Bootstrapping Boot assms(1) seen_mono show ?thesis by simp
    next
      case True
      obtain b' m' errs' where r: "boot_resume hp bev (sp_boots s ! i) (sp_refs s ! i) m (sp_errors s) = (b', m', errs')"
        by (cases "boot_resume hp bev (sp_boots s ! i) (sp_refs s ! i) m (sp_errors s)")
      from True len old have oi: "(b_runs (sp_boots s ! i) \<noteq> [] \<longrightarrow> started_in P i) \<and>
          (is_Booted (sp_boots s ! i) \<longrightarrow> started_in P i \<and> finished_in P i)" by simp
      note here = boot_resume_seen [OF r oi]
      have "\<forall>k < n. (b_runs ((sp_boots s)[i := b'] ! k) \<noteq> [] \<longrightarrow> started_in (P @ [ev]) k) \<and>
                   (is_Booted ((sp_boots s)[i := b'] ! k) \<longrightarrow> started_in (P @ [ev]) k \<and> finished_in (P @ [ev]) k)"
      proof (intro allI impI)
        fix k assume k: "k < n"
        show "(b_runs ((sp_boots s)[i := b'] ! k) \<noteq> [] \<longrightarrow> started_in (P @ [ev]) k) \<and>
                   (is_Booted ((sp_boots s)[i := b'] ! k) \<longrightarrow> started_in (P @ [ev]) k \<and> finished_in (P @ [ev]) k)"
        proof (cases "k = i")
          case True
          with here Boot \<open>i < length (sp_boots s)\<close> show ?thesis by simp
        next
          case False
          with old k show ?thesis by (simp add: started_in_append finished_in_append)
        qed
      qed
      then have "seen n (P @ [ev]) (join (s\<lparr>sp_boots := (sp_boots s)[i := b'], sp_errors := errs'\<rparr>))"
        using len by (intro join_seen) simp_all
      with Bootstrapping Boot True r show ?thesis by (simp add: Let_def)
    qed
  qed
next
  case (Spawned rep)
  with assms(1) seen_mono show ?thesis by simp
next
  case (Spawn_rejected e)
  then show ?thesis by (simp add: seen_def)
qed

lemma spawn_run_seen:
  assumes "seen n P st" "report_ok n st"
  shows "seen n (P @ evs) (fst (spawn_run hp evs (st, m)))"
  using assms
proof (induction evs arbitrary: P st m)
  case Nil
  then show ?case by simp
next
  case (Cons ev evs)
  show ?case
  proof (cases "exitCode m = None")
    case False
    with Cons.prems seen_mono show ?thesis by auto
  next
    case True
    from Cons.IH [OF spawn_resume_seen [OF Cons.prems, of ev hp m] spawn_resume_report_ok [OF Cons.prems(2), of hp ev m],
        of "snd (spawn_resume hp ev st m)"] True
    show ?thesis by simp
  qed
qed

lemma spawn_call_seen:
  assumes "0 \<le> ensureInstanceNumber hp instances"
  shows "seen (nat (ensureInstanceNumber hp instances)) [] (fst (spawn_call hp instances m))"
proof -
  define k where "k = nat (ensureInstanceNumber hp instances)"
  have "seen k [] (fst (bootstrap_all [nextRef m..<nextRef m + k] mm))" for mm
    unfolding bootstrap_all_def by (simp add: join_seen is_Booted_def)
  then show ?thesis
    using assms
    by (auto simp: spawn_call_def Let_def k_def [symmetric] seen_def)
qed

lemma spawn_run_append:
  "spawn_run hp (as @ bs) c = spawn_run hp bs (spawn_run hp as c)"
proof (induction as arbitrary: c)
  case Nil
  show ?case by simp
next
  case (Cons a as)
  obtain st m where c: "c = (st, m)" by (cases c)
  show ?case
  proof (cases "exitCode m = None")
    case True
    with Cons c show ?thesis by simp
  next
    case False
    then have "spawn_run hp bs (st, m) = (st, m)" by (cases bs) auto
    with False c show ?thesis by auto
  qed
qed

lemma not_all_update: "i < length xs \<Longrightarrow> \<not> P y \<Longrightarrow> \<not> list_all P (xs[i := y])"
  by (auto simp: list_all_length nth_list_update intro!: exI [of _ i])

lemma exitCode_assign_number [simp]: "exitCode (snd (assign_number r m)) = exitCode m"
  by (simp add: assign_number_def Let_def)

lemma exitCode_run_resume [simp]: "exitCode (fst (snd (run_resume hp x ru r m))) = exitCode m"
  by (cases "(hp, x, ru, r, m)" rule: run_resume.cases) (auto simp: Let_def run_failed_def emit_def)

lemma exitCode_boot_resume [simp]: "exitCode (fst (snd (boot_resume hp ev b r m errs))) = exitCode m"
  by (cases ev) (auto simp: boot_resume_def Let_def)

text \<open>One event of a bootstrap that leaves it unresolved, and one that resolves it.\<close>

lemma boot_step_pending:
  assumes "i < length (sp_boots s)" "boot_resume hp ev (sp_boots s ! i) (sp_refs s ! i) m (sp_errors s) = (b', m', errs')"
    "\<not> is_Booted b'"
  shows "spawn_resume hp (Boot i ev) (Bootstrapping s) m =
           (Bootstrapping (s\<lparr>sp_boots := (sp_boots s)[i := b'], sp_errors := errs'\<rparr>), m')"
  using assms by (simp add: Let_def join_def not_all_update)

lemma boot_step:
  assumes "i < length (sp_boots s)" "boot_resume hp ev (sp_boots s ! i) (sp_refs s ! i) m (sp_errors s) = (b', m', errs')"
  shows "spawn_resume hp (Boot i ev) (Bootstrapping s) m =
           (join (s\<lparr>sp_boots := (sp_boots s)[i := b'], sp_errors := errs'\<rparr>), m')"
  using assms by (simp add: Let_def)


lemma script_run:
  assumes i: "i < length (sp_boots s)" and f: "sp_boots s ! i = fresh_boot" and e: "exitCode m = None"
  shows "\<exists>b' m'. spawn_run hp (boot_script i out) (Bootstrapping s, m) =
           (join (s\<lparr>sp_boots := (sp_boots s)[i := b'], sp_errors := sp_errors s @ failure_of out\<rparr>), m') \<and>
           is_Booted b' \<and> exitCode m' = None"
proof -
  define r where "r = sp_refs s ! i"
  obtain n m1 where a: "assign_number r m = (n, m1)" by (cases "assign_number r m")
  have e1: "exitCode m1 = None" using exitCode_assign_number [of r m] a e by simp
  define s1 where "s1 = s\<lparr>sp_boots := (sp_boots s)[i := \<lparr>b_promise = None, b_runs = [AwaitPidFile n]\<rparr>]\<rparr>"
  have st1: "spawn_resume hp (Boot i START) (Bootstrapping s) m = (Bootstrapping s1, m1)"
    using i f a
    by (subst boot_step_pending [where b' = "\<lparr>b_promise = None, b_runs = [AwaitPidFile n]\<rparr>" and m' = m1 and errs' = "sp_errors s"])
       (simp_all add: boot_resume_def fresh_boot_def Let_def r_def is_Booted_def s1_def)
  have i1: "i < length (sp_boots s1)" and b1: "sp_boots s1 ! i = \<lparr>b_promise = None, b_runs = [AwaitPidFile n]\<rparr>"
    and r1: "sp_refs s1 ! i = r" and er1: "sp_errors s1 = sp_errors s"
    and u1: "\<And>b. (sp_boots s1)[i := b] = (sp_boots s)[i := b]"
    using i by (simp_all add: s1_def r_def)
  show ?thesis
  proof (cases out)
    case (No_pidFile err)
    define b2 where "b2 = \<lparr>b_promise = Some (toJSON (workers (emit (Log_debug err) m1) r)), b_runs = [Finished]\<rparr>"
    have st2: "spawn_resume hp (Boot i (Settled 0 (PidFile (Reject err)))) (Bootstrapping s1) m1 =
        (join (s1\<lparr>sp_boots := (sp_boots s1)[i := b2], sp_errors := sp_errors s1 @ [err]\<rparr>), emit (Log_debug err) m1)"
      using i1 b1 r1
      by (subst boot_step [where b' = b2 and m' = "emit (Log_debug err) m1" and errs' = "sp_errors s1 @ [err]"])
         (simp_all add: boot_resume_def Let_def run_failed_def b2_def)
    have "is_Booted b2" by (simp add: b2_def is_Booted_def)
    moreover have "exitCode (emit (Log_debug err) m1) = None" using e1 by (simp add: emit_def)
    ultimately show ?thesis
      using No_pidFile st1 st2 e e1 u1 er1
      by (intro exI [of _ b2] exI [of _ "emit (Log_debug err) m1"]) (simp add: s1_def)
  next
    case (No_socketPath pidFile err)
    define s2 where "s2 = s\<lparr>sp_boots := (sp_boots s)[i := \<lparr>b_promise = None, b_runs = [AwaitSocketPath n pidFile]\<rparr>]\<rparr>"
    have st2: "spawn_resume hp (Boot i (Settled 0 (PidFile (Fulfil pidFile)))) (Bootstrapping s1) m1 = (Bootstrapping s2, m1)"
      using i1 b1 r1
      by (subst boot_step_pending [where b' = "\<lparr>b_promise = None, b_runs = [AwaitSocketPath n pidFile]\<rparr>" and m' = m1 and errs' = "sp_errors s1"])
         (simp_all add: boot_resume_def Let_def is_Booted_def s2_def s1_def)
    have i2: "i < length (sp_boots s2)" and b2: "sp_boots s2 ! i = \<lparr>b_promise = None, b_runs = [AwaitSocketPath n pidFile]\<rparr>"
      and r2: "sp_refs s2 ! i = r" and er2: "sp_errors s2 = sp_errors s"
      and u2: "\<And>b. (sp_boots s2)[i := b] = (sp_boots s)[i := b]"
      using i by (simp_all add: s2_def r_def)
    define b3 where "b3 = \<lparr>b_promise = Some (toJSON (workers (emit (Log_debug err) m1) r)), b_runs = [Finished]\<rparr>"
    have st3: "spawn_resume hp (Boot i (Settled 0 (SocketPath (Reject err)))) (Bootstrapping s2) m1 =
        (join (s2\<lparr>sp_boots := (sp_boots s2)[i := b3], sp_errors := sp_errors s2 @ [err]\<rparr>), emit (Log_debug err) m1)"
      using i2 b2 r2
      by (subst boot_step [where b' = b3 and m' = "emit (Log_debug err) m1" and errs' = "sp_errors s2 @ [err]"])
         (simp_all add: boot_resume_def Let_def run_failed_def b3_def)
    have "is_Booted b3" by (simp add: b3_def is_Booted_def)
    moreover have "exitCode (emit (Log_debug err) m1) = None" using e1 by (simp add: emit_def)
    ultimately show ?thesis
      using No_socketPath st1 st2 st3 e e1 u2 er2
      by (intro exI [of _ b3] exI [of _ "emit (Log_debug err) m1"]) (simp add: s2_def)
  next
    case (No_pidWritten pidFile socketPath err)
    define s2 where "s2 = s\<lparr>sp_boots := (sp_boots s)[i := \<lparr>b_promise = None, b_runs = [AwaitSocketPath n pidFile]\<rparr>]\<rparr>"
    have st2: "spawn_resume hp (Boot i (Settled 0 (PidFile (Fulfil pidFile)))) (Bootstrapping s1) m1 = (Bootstrapping s2, m1)"
      using i1 b1 r1
      by (subst boot_step_pending [where b' = "\<lparr>b_promise = None, b_runs = [AwaitSocketPath n pidFile]\<rparr>" and m' = m1 and errs' = "sp_errors s1"])
         (simp_all add: boot_resume_def Let_def is_Booted_def s2_def s1_def)
    have i2: "i < length (sp_boots s2)" and b2: "sp_boots s2 ! i = \<lparr>b_promise = None, b_runs = [AwaitSocketPath n pidFile]\<rparr>"
      and r2: "sp_refs s2 ! i = r" and er2: "sp_errors s2 = sp_errors s"
      using i by (simp_all add: s2_def r_def)
    obtain ru3 m3 new3 where rr: "run_resume hp (SocketPath (Fulfil socketPath)) (AwaitSocketPath n pidFile) r m1 = (ru3, m3, new3)"
      by (cases "run_resume hp (SocketPath (Fulfil socketPath)) (AwaitSocketPath n pidFile) r m1")
    then have ru3: "ru3 = AwaitWritePid" "new3 = []" by (auto simp: Let_def)
    have e3: "exitCode m3 = None" using exitCode_run_resume [of hp "SocketPath (Fulfil socketPath)" "AwaitSocketPath n pidFile" r m1] rr e1 by simp
    define s3 where "s3 = s\<lparr>sp_boots := (sp_boots s)[i := \<lparr>b_promise = None, b_runs = [AwaitWritePid]\<rparr>]\<rparr>"
    have st3: "spawn_resume hp (Boot i (Settled 0 (SocketPath (Fulfil socketPath)))) (Bootstrapping s2) m1 = (Bootstrapping s3, m3)"
      using i2 b2 r2 rr ru3
      by (subst boot_step_pending [where b' = "\<lparr>b_promise = None, b_runs = [AwaitWritePid]\<rparr>" and m' = m3 and errs' = "sp_errors s2"])
         (simp_all add: boot_resume_def is_Booted_def s3_def s2_def del: run_resume.simps)
    have i3: "i < length (sp_boots s3)" and b3: "sp_boots s3 ! i = \<lparr>b_promise = None, b_runs = [AwaitWritePid]\<rparr>"
      and r3: "sp_refs s3 ! i = r" and er3: "sp_errors s3 = sp_errors s"
      and u3: "\<And>b. (sp_boots s3)[i := b] = (sp_boots s)[i := b]"
      using i by (simp_all add: s3_def r_def)
    define b4 where "b4 = \<lparr>b_promise = Some (toJSON (workers (emit (Log_debug err) m3) r)), b_runs = [Finished]\<rparr>"
    have st4: "spawn_resume hp (Boot i (Settled 0 (PidWritten (Reject err)))) (Bootstrapping s3) m3 =
        (join (s3\<lparr>sp_boots := (sp_boots s3)[i := b4], sp_errors := sp_errors s3 @ [err]\<rparr>), emit (Log_debug err) m3)"
      using i3 b3 r3
      by (subst boot_step [where b' = b4 and m' = "emit (Log_debug err) m3" and errs' = "sp_errors s3 @ [err]"])
         (simp_all add: boot_resume_def Let_def run_failed_def b4_def)
    have "is_Booted b4" by (simp add: b4_def is_Booted_def)
    moreover have "exitCode (emit (Log_debug err) m3) = None" using e3 by (simp add: emit_def)
    ultimately show ?thesis
      using No_pidWritten st1 st2 st3 st4 e e1 e3 u3 er3
      by (intro exI [of _ b4] exI [of _ "emit (Log_debug err) m3"]) (simp add: s3_def)
  next
    case (Boots pidFile socketPath)
    define s2 where "s2 = s\<lparr>sp_boots := (sp_boots s)[i := \<lparr>b_promise = None, b_runs = [AwaitSocketPath n pidFile]\<rparr>]\<rparr>"
    have st2: "spawn_resume hp (Boot i (Settled 0 (PidFile (Fulfil pidFile)))) (Bootstrapping s1) m1 = (Bootstrapping s2, m1)"
      using i1 b1 r1
      by (subst boot_step_pending [where b' = "\<lparr>b_promise = None, b_runs = [AwaitSocketPath n pidFile]\<rparr>" and m' = m1 and errs' = "sp_errors s1"])
         (simp_all add: boot_resume_def Let_def is_Booted_def s2_def s1_def)
    have i2: "i < length (sp_boots s2)" and b2: "sp_boots s2 ! i = \<lparr>b_promise = None, b_runs = [AwaitSocketPath n pidFile]\<rparr>"
      and r2: "sp_refs s2 ! i = r" and er2: "sp_errors s2 = sp_errors s"
      using i by (simp_all add: s2_def r_def)
    obtain ru3 m3 new3 where rr: "run_resume hp (SocketPath (Fulfil socketPath)) (AwaitSocketPath n pidFile) r m1 = (ru3, m3, new3)"
      by (cases "run_resume hp (SocketPath (Fulfil socketPath)) (AwaitSocketPath n pidFile) r m1")
    then have ru3: "ru3 = AwaitWritePid" "new3 = []" by (auto simp: Let_def)
    have e3: "exitCode m3 = None" using exitCode_run_resume [of hp "SocketPath (Fulfil socketPath)" "AwaitSocketPath n pidFile" r m1] rr e1 by simp
    define s3 where "s3 = s\<lparr>sp_boots := (sp_boots s)[i := \<lparr>b_promise = None, b_runs = [AwaitWritePid]\<rparr>]\<rparr>"
    have st3: "spawn_resume hp (Boot i (Settled 0 (SocketPath (Fulfil socketPath)))) (Bootstrapping s2) m1 = (Bootstrapping s3, m3)"
      using i2 b2 r2 rr ru3
      by (subst boot_step_pending [where b' = "\<lparr>b_promise = None, b_runs = [AwaitWritePid]\<rparr>" and m' = m3 and errs' = "sp_errors s2"])
         (simp_all add: boot_resume_def is_Booted_def s3_def s2_def del: run_resume.simps)
    have i3: "i < length (sp_boots s3)" and b3: "sp_boots s3 ! i = \<lparr>b_promise = None, b_runs = [AwaitWritePid]\<rparr>"
      and r3: "sp_refs s3 ! i = r" and er3: "sp_errors s3 = sp_errors s"
      and u3: "\<And>b. (sp_boots s3)[i := b] = (sp_boots s)[i := b]"
      using i by (simp_all add: s3_def r_def)
    obtain ru4 m4 new4 where rr4: "run_resume hp (PidWritten (Fulfil ())) AwaitWritePid r m3 = (ru4, m4, new4)"
      by (cases "run_resume hp (PidWritten (Fulfil ())) AwaitWritePid r m3")
    then have ru4: "ru4 = Finished" "new4 = []" by (auto simp: Let_def)
    have e4: "exitCode m4 = None" using exitCode_run_resume [of hp "PidWritten (Fulfil ())" AwaitWritePid r m3] rr4 e3 by simp
    define b4 where "b4 = \<lparr>b_promise = Some (toJSON (workers m4 r)), b_runs = [Finished]\<rparr>"
    have st4: "spawn_resume hp (Boot i (Settled 0 (PidWritten (Fulfil ())))) (Bootstrapping s3) m3 =
        (join (s3\<lparr>sp_boots := (sp_boots s3)[i := b4], sp_errors := sp_errors s3\<rparr>), m4)"
      using i3 b3 r3 rr4 ru4
      by (subst boot_step [where b' = b4 and m' = m4 and errs' = "sp_errors s3"])
         (simp_all add: boot_resume_def b4_def del: run_resume.simps)
    have "is_Booted b4" by (simp add: b4_def is_Booted_def)
    then show ?thesis
      using Boots st1 st2 st3 st4 e e1 e3 e4 u3 er3
      by (intro exI [of _ b4] exI [of _ m4]) (simp add: s3_def)
  qed
qed

lemma scripts_run:
  assumes "length (sp_boots s) = k + length outs"
    and "\<forall>i < k. is_Booted (sp_boots s ! i)"
    and "\<forall>i. k \<le> i \<and> i < length (sp_boots s) \<longrightarrow> sp_boots s ! i = fresh_boot"
    and "exitCode m = None"
  shows "\<exists>rep m'. spawn_run hp (scripts_from k outs) (join s, m) = (Spawned rep, m') \<and>
           errors rep = sp_errors s @ concat (map failure_of outs) \<and> exitCode m' = None"
  using assms
proof (induction outs arbitrary: k s m)
  case Nil
  then have "list_all is_Booted (sp_boots s)" by (simp add: list_all_length)
  with Nil show ?case by (simp add: join_def)
next
  case (Cons out outs)
  from Cons.prems have k: "k < length (sp_boots s)" and f: "sp_boots s ! k = fresh_boot" by simp_all
  then have "\<not> list_all is_Booted (sp_boots s)"
    by (auto simp: list_all_length is_Booted_def fresh_boot_def intro!: exI [of _ k])
  then have j: "join s = Bootstrapping s" by (simp add: join_def)
  from script_run [OF k f Cons.prems(4), of hp out] obtain b' m1 where
    r: "spawn_run hp (boot_script k out) (Bootstrapping s, m) =
           (join (s\<lparr>sp_boots := (sp_boots s)[k := b'], sp_errors := sp_errors s @ failure_of out\<rparr>), m1)"
    and b: "is_Booted b'" and e1: "exitCode m1 = None"
    by blast
  define s1 where "s1 = s\<lparr>sp_boots := (sp_boots s)[k := b'], sp_errors := sp_errors s @ failure_of out\<rparr>"
  have l1: "length (sp_boots s1) = Suc k + length outs" using Cons.prems(1) by (simp add: s1_def)
  have a1: "\<forall>i < Suc k. is_Booted (sp_boots s1 ! i)"
    using Cons.prems(2) b k by (auto simp: s1_def nth_list_update less_Suc_eq)
  have f1: "\<forall>i. Suc k \<le> i \<and> i < length (sp_boots s1) \<longrightarrow> sp_boots s1 ! i = fresh_boot"
    using Cons.prems(3) by (auto simp: s1_def nth_list_update)
  from Cons.IH [OF l1 a1 f1 e1] obtain rep m' where
    "spawn_run hp (scripts_from (Suc k) outs) (join s1, m1) = (Spawned rep, m')"
    "errors rep = sp_errors s1 @ concat (map failure_of outs)" "exitCode m' = None"
    by blast
  with r j show ?case
    by (simp add: spawn_run_append s1_def)
qed

lemma spawn_one_by_one:
  assumes "socket m" "exitCode m = None" "ensureInstanceNumber hp instances = int (length outs)"
  shows "\<exists>rep m'. spawn hp (one_by_one outs) instances m = (Spawned rep, m') \<and>
           errors rep = concat (map failure_of outs) \<and> exitCode m' = None"
proof -
  define n where "n = length outs"
  define m1 where "m1 = m\<lparr>workers := (\<lambda>r. if nextRef m \<le> r \<and> r < nextRef m + n
                                        then new_WorkerMonitor (template m) else workers m r),
                     nextRef := nextRef m + n\<rparr>"
  define refs where "refs = [nextRef m..<nextRef m + n]"
  define s0 where "s0 = \<lparr>sp_refs = refs, sp_boots = map (\<lambda>r. \<lparr>b_promise = None, b_runs = []\<rparr>) refs, sp_errors = []\<rparr>"
  have c: "spawn_call hp instances m = (join s0, m1\<lparr>effects := effects m1 @ map Call_start refs\<rparr>)"
    using assms by (simp add: spawn_call_def Let_def bootstrap_all_def n_def m1_def refs_def s0_def)
  have "\<exists>rep m'. spawn_run hp (scripts_from 0 outs) (join s0, m1\<lparr>effects := effects m1 @ map Call_start refs\<rparr>) = (Spawned rep, m') \<and>
           errors rep = sp_errors s0 @ concat (map failure_of outs) \<and> exitCode m' = None"
    using assms(2)
    by (intro scripts_run) (simp_all add: s0_def refs_def n_def fresh_boot_def m1_def)
  then show ?thesis
    by (simp add: spawn_def c one_by_one_def s0_def)
qed

lemma starts_boot_script [simp]: "starts (boot_script i out @ evs) = i # starts evs"
  by (cases out) (simp_all add: starts_def)

lemma starts_scripts_from: "starts (scripts_from k outs) = [k..<k + length outs]"
proof (induction outs arbitrary: k)
  case Nil
  show ?case by (simp add: starts_def)
next
  case (Cons out outs)
  then show ?case by (simp add: upt_rec)
qed

lemma distinct_starts_one_by_one: "distinct (starts (one_by_one outs))"
  by (simp add: one_by_one_def starts_scripts_from)



lemma demo_spawn_two:
  "case spawn demo_helpers (boot_ok 0 @ boot_ok 1) (Some (JNum 2)) bound of
     (Spawned rep, m') \<Rightarrow>
        ok rep \<and> errors rep = [] \<and> map_option length (added rep) = Some 2 \<and>
        nums m' = [Some 1, Some 2] \<and> workerMonitors m' = [0, 1] \<and>
        map_option (map (\<lambda>s. s ''instanceNum'')) (added rep) = Some [Some (JNum 1), Some (JNum 2)]
   | _ \<Rightarrow> False"
  by (simp add: spawn_def spawn_call_def demo_helpers_def fresh_def bound_def boot_ok_def
      bootstrap_all_def join_def is_Booted_def snapshot_of_def Let_def emit_def assign_number_def
      nums_def new_WorkerMonitor_def toJSON_def sort_by_def num_le_def number_value_def
      boot_resume_def run_failed_def)

lemma demo_spawn_pending:
  "case fst (spawn demo_helpers (boot_ok 0) (Some (JNum 2)) bound) of
      Bootstrapping s \<Rightarrow> map is_Booted (sp_boots s) = [True, False]
    | _ \<Rightarrow> False"
  by (simp add: spawn_def spawn_call_def demo_helpers_def fresh_def bound_def boot_ok_def
      bootstrap_all_def join_def is_Booted_def snapshot_of_def Let_def emit_def assign_number_def
      nums_def new_WorkerMonitor_def toJSON_def sort_by_def num_le_def number_value_def
      boot_resume_def run_failed_def)


section \<open>Instance numbers\<close>

lemma Math_max_Some:
  "xs \<noteq> [] \<Longrightarrow> Math_max (map Some xs) = Some (Max (set xs))"
proof (induction xs rule: induct_list012)
  case 1
  then show ?case by simp
next
  case (2 x)
  show ?case by simp
next
  case (3 x y zs)
  then have "Math_max (map Some (y # zs)) = Some (Max (set (y # zs)))" by simp
  then show ?case by (simp add: max.commute)
qed

lemma Max_upto_int: "0 < k \<Longrightarrow> Max (set (map int [1..<Suc k])) = int k"
proof -
  assume "0 < k"
  have "set (map int [1..<Suc k]) = int ` {1..k}" by auto
  moreover have "Max (int ` {1..k}) = int k"
    using \<open>0 < k\<close> by (intro Max_eqI) auto
  ultimately show ?thesis by simp
qed

lemma next_number:
  assumes "nums m = map (\<lambda>k. Some (int k)) [1..<Suc (length (workerMonitors m))]"
  shows "fst (assign_number r m) = Some (int (Suc (length (workerMonitors m))))"
proof (cases "workerMonitors m = []")
  case True
  then show ?thesis by (simp add: assign_number_def Let_def)
next
  case False
  then have pos: "0 < length (workerMonitors m)" by simp
  have "nums m = map Some (map int [1..<Suc (length (workerMonitors m))])"
    using assms by simp
  moreover have "map int [1..<Suc (length (workerMonitors m))] \<noteq> []" using pos by (simp add: Suc_le_eq)
  ultimately have "Math_max (nums m) = Some (Max (set (map int [1..<Suc (length (workerMonitors m))])))"
    using Math_max_Some by metis
  with Max_upto_int [OF pos] have "Math_max (nums m) = Some (int (length (workerMonitors m)))"
    by simp
  with False show ?thesis by (simp add: assign_number_def Let_def)
qed

lemma sort_by_sorted: "sorted_wrt le xs \<Longrightarrow> sort_by le xs = xs"
proof (induction xs)
  case Nil
  show ?case by (simp add: sort_by_def)
next
  case (Cons x xs)
  then have "sort_by le xs = xs" by simp
  then have "sort_by le (x # xs) = insert_sorted le x xs" by (simp add: sort_by_def)
  also have "\<dots> = x # xs" using Cons.prems by (cases xs) auto
  finally show ?case .
qed

lemma numbered_sorted:
  assumes "nums m = map (\<lambda>k. Some (int k)) [1..<Suc (length (workerMonitors m))]"
  shows "sorted_wrt (num_le (workers m)) (workerMonitors m)"
proof -
  have n: "\<And>i. i < length (workerMonitors m) \<Longrightarrow>
      instanceNum (workers m (workerMonitors m ! i)) = Some (int (Suc i))"
  proof -
    fix i assume i: "i < length (workerMonitors m)"
    then have "nums m ! i = instanceNum (workers m (workerMonitors m ! i))"
      by (simp add: nums_def)
    moreover have "map (\<lambda>k. Some (int k)) [1..<Suc (length (workerMonitors m))] ! i = Some (int (Suc i))"
      using i by (simp del: upt_Suc)
    ultimately show "instanceNum (workers m (workerMonitors m ! i)) = Some (int (Suc i))"
      using assms by simp
  qed
  show ?thesis
    unfolding sorted_wrt_iff_nth_less
    by (auto simp: num_le_def n)
qed



lemma run_resume_frame:
  assumes "run_resume hp x ru r m = (ru', m', new)"
  shows "(\<forall>q. instanceNum (workers m' q) = instanceNum (workers m q)) \<and>
         (workerMonitors m' = workerMonitors m \<or>
          workerMonitors m' = sort_by (num_le (workers m)) (workerMonitors m))"
  using assms
  by (cases "(hp, x, ru, r, m)" rule: run_resume.cases)
     (auto simp: run_failed_def Let_def emit_def)

lemma nums_cong:
  "\<forall>q. instanceNum (workers m' q) = instanceNum (workers m q) \<Longrightarrow>
   workerMonitors m' = workerMonitors m \<Longrightarrow> nums m' = nums m"
  by (simp add: nums_def)

lemma boot_step_match:
  assumes bm: "boots_match f s m" and i: "i < length (sp_boots s)"
    and r: "boot_resume hp ev (sp_boots s ! i) (sp_refs s ! i) m (sp_errors s) = (b', m', errs')"
    and once: "ev = START \<longrightarrow> b_runs (sp_boots s ! i) = []"
    and bk: "is_Booted (sp_boots s ! i) \<longrightarrow> b_runs (sp_boots s ! i) \<noteq> []"
  shows "boots_match f (s\<lparr>sp_boots := (sp_boots s)[i := b'], sp_errors := errs'\<rparr>) m' \<and>
         (is_Booted b' \<longrightarrow> b_runs b' \<noteq> []) \<and>
         (b_runs b' \<noteq> [] \<longrightarrow> b_runs (sp_boots s ! i) \<noteq> [] \<or> ev = START)"
proof -
  from bm have refs: "sp_refs s = [f..<f + length (sp_boots s)]"
    and dist: "distinct (workerMonitors m)"
    and mem: "set (workerMonitors m) = {f + j | j. j < length (sp_boots s) \<and> b_runs (sp_boots s ! j) \<noteq> []}"
    and nm: "nums m = map (\<lambda>k. Some (int k)) [1..<Suc (length (workerMonitors m))]"
    by (simp_all add: boots_match_def)
  from refs i have ri: "sp_refs s ! i = f + i" by simp
  show ?thesis
  proof (cases ev)
    case START
    with once have fr: "b_runs (sp_boots s ! i) = []" by simp
    with mem have notin: "f + i \<notin> set (workerMonitors m)" by auto
    define n where "n = Some (int (Suc (length (workerMonitors m))))"
    from next_number [OF nm, of "f + i"] have fn: "fst (assign_number (f + i) m) = n"
      by (simp add: n_def)
    from r START ri fn fr have b': "b' = (sp_boots s ! i)\<lparr>b_runs := [AwaitPidFile n]\<rparr>"
      and m': "m' = snd (assign_number (f + i) m)"
      by (auto simp: boot_resume_def Let_def)
    have wm': "workerMonitors m' = workerMonitors m @ [f + i]"
      by (simp add: m' assign_number_def Let_def)
    have ws': "workers m' = (workers m)(f + i := (workers m (f + i))\<lparr>instanceNum := n\<rparr>)"
      using fn by (simp add: m' assign_number_def Let_def)
    have old: "map (\<lambda>q. instanceNum (workers m' q)) (workerMonitors m) = nums m"
      unfolding nums_def using notin by (auto simp: ws')
    have nums': "nums m' = nums m @ [n]"
      by (simp add: nums_def wm' old [unfolded nums_def]) (simp add: ws')
    have c1: "distinct (workerMonitors m')" using dist notin by (simp add: wm')
    have c2: "set (workerMonitors m') =
        {f + j | j. j < length (sp_boots s) \<and> b_runs ((sp_boots s)[i := b'] ! j) \<noteq> []}"
    proof -
      have "{f + j | j. j < length (sp_boots s) \<and> b_runs ((sp_boots s)[i := b'] ! j) \<noteq> []} =
            insert (f + i) {f + j | j. j < length (sp_boots s) \<and> b_runs (sp_boots s ! j) \<noteq> []}"
        using i b' by (auto simp: nth_list_update)
      then show ?thesis using mem by (simp add: wm')
    qed
    have c3: "nums m' = map (\<lambda>k. Some (int k)) [1..<Suc (length (workerMonitors m'))]"
      using nm by (simp add: nums' wm' n_def)
    from refs c1 c2 c3 b' START show ?thesis by (simp add: boots_match_def)
  next
    case (Settled j x)
    show ?thesis
    proof (cases "j < length (b_runs (sp_boots s ! i))")
      case False
      with r Settled have "b' = sp_boots s ! i" "m' = m" by (simp_all add: boot_resume_def)
      with bm bk i show ?thesis by (simp add: boots_match_def)
    next
      case True
      obtain ru' m1 new where rr: "run_resume hp x (b_runs (sp_boots s ! i) ! j) (f + i) m = (ru', m1, new)"
        by (cases "run_resume hp x (b_runs (sp_boots s ! i) ! j) (f + i) m")
      from r Settled True rr ri have m': "m' = m1"
        and runs': "b_runs b' = (b_runs (sp_boots s ! i))[j := ru']"
        by (auto simp: boot_resume_def Let_def)
      from True have ne: "b_runs (sp_boots s ! i) \<noteq> []" by auto
      with runs' have ne': "b_runs b' \<noteq> []" by simp
      from run_resume_frame [OF rr] m'
      have inum: "\<forall>q. instanceNum (workers m' q) = instanceNum (workers m q)"
        and w: "workerMonitors m' = workerMonitors m \<or>
            workerMonitors m' = sort_by (num_le (workers m)) (workerMonitors m)"
        by blast+
      from w sort_by_sorted [OF numbered_sorted [OF nm]]
      have wm': "workerMonitors m' = workerMonitors m" by auto
      have c2: "set (workerMonitors m') =
          {f + k | k. k < length (sp_boots s) \<and> b_runs ((sp_boots s)[i := b'] ! k) \<noteq> []}"
      proof -
        have "(b_runs ((sp_boots s)[i := b'] ! k) \<noteq> []) = (b_runs (sp_boots s ! k) \<noteq> [])"
          if "k < length (sp_boots s)" for k
          using ne ne' i that by (cases "k = i") (auto simp: nth_list_update)
        then have "{f + k | k. k < length (sp_boots s) \<and> b_runs ((sp_boots s)[i := b'] ! k) \<noteq> []} =
              {f + k | k. k < length (sp_boots s) \<and> b_runs (sp_boots s ! k) \<noteq> []}"
          by blast
        with mem wm' show ?thesis by simp
      qed
      have c3: "nums m' = map (\<lambda>k. Some (int k)) [1..<Suc (length (workerMonitors m'))]"
        using nums_cong [OF inum wm'] nm wm' by simp
      from refs dist wm' c2 c3 ne ne' show ?thesis by (simp add: boots_match_def)
    qed
  qed
qed

lemma join_fresh_inv:
  assumes "boots_match f s m" "length (sp_boots s) = n"
    and "\<forall>i < n. is_Booted (sp_boots s ! i) \<longrightarrow> b_runs (sp_boots s ! i) \<noteq> []"
  shows "fresh_inv f n (join s) m"
proof (cases "list_all is_Booted (sp_boots s)")
  case False
  with assms show ?thesis by (simp add: join_def fresh_inv_def)
next
  case True
  then have all: "\<And>j. j < n \<Longrightarrow> b_runs (sp_boots s ! j) \<noteq> []"
    using assms(2,3) by (auto simp: list_all_length)
  from assms have mem: "set (workerMonitors m) = {f + j | j. j < n \<and> b_runs (sp_boots s ! j) \<noteq> []}"
    and dist: "distinct (workerMonitors m)"
    and nm: "nums m = map (\<lambda>k. Some (int k)) [1..<Suc (length (workerMonitors m))]"
    by (simp_all add: boots_match_def)
  have "{f + j | j. j < n \<and> b_runs (sp_boots s ! j) \<noteq> []} = {f..<f + n}"
  proof
    show "{f + j | j. j < n \<and> b_runs (sp_boots s ! j) \<noteq> []} \<subseteq> {f..<f + n}" by auto
    show "{f..<f + n} \<subseteq> {f + j | j. j < n \<and> b_runs (sp_boots s ! j) \<noteq> []}"
    proof
      fix x assume "x \<in> {f..<f + n}"
      then have "x = f + (x - f)" "x - f < n" by auto
      with all [of "x - f"] show "x \<in> {f + j | j. j < n \<and> b_runs (sp_boots s ! j) \<noteq> []}"
        by blast
    qed
  qed
  with mem have set: "set (workerMonitors m) = {f..<f + n}" by simp
  with dist have "length (workerMonitors m) = n"
    using distinct_card [of "workerMonitors m"] by simp
  with nm set dist True show ?thesis by (simp add: join_def fresh_inv_def)
qed

lemma bootstrap_all_fresh_inv:
  assumes "workerMonitors m = []"
  shows "fresh_inv f n (fst (bootstrap_all [f..<f + n] m)) (snd (bootstrap_all [f..<f + n] m))"
proof -
  have "boots_match f \<lparr>sp_refs = [f..<f + n], sp_boots = map (\<lambda>r. \<lparr>b_promise = None, b_runs = []\<rparr>) [f..<f + n], sp_errors = []\<rparr>
          (m\<lparr>effects := effects m @ map Call_start [f..<f + n]\<rparr>)"
    using assms by (simp add: boots_match_def nums_def)
  from join_fresh_inv [OF this, of n] show ?thesis by (simp add: bootstrap_all_def is_Booted_def)
qed

lemma started_bootstrap_all [simp]: "started (fst (bootstrap_all refs m)) = {}"
  by (simp add: bootstrap_all_def join_def started_def)

lemma started_join: "started (join s) \<subseteq> {i. i < length (sp_boots s) \<and> b_runs (sp_boots s ! i) \<noteq> []}"
  by (simp add: join_def started_def)

lemma spawn_resume_fresh_inv:
  assumes inv: "fresh_inv f n st m"
    and once: "\<forall>i. ev = Boot i START \<longrightarrow> i \<notin> started st"
  shows "fresh_inv f n (fst (spawn_resume hp ev st m)) (snd (spawn_resume hp ev st m)) \<and>
         started (fst (spawn_resume hp ev st m)) \<subseteq> started st \<union> {i. ev = Boot i START}"
proof (cases st)
  case (Await_getSocketPath refs)
  with inv have "refs = [f..<f + n]" "workerMonitors (m\<lparr>socket := False\<rparr>) = []"
    by (simp_all add: fresh_inv_def)
  with bootstrap_all_fresh_inv [of "m\<lparr>socket := False\<rparr>" f n] inv Await_getSocketPath show ?thesis
    by (cases ev; cases "case ev of Got_socketPath x \<Rightarrow> x | _ \<Rightarrow> Reject TypeError")
       (auto simp: fresh_inv_def started_def startServer_def)
next
  case (Bootstrapping s)
  with inv have len: "length (sp_boots s) = n" and bm: "boots_match f s m"
    and bk: "\<forall>i < n. is_Booted (sp_boots s ! i) \<longrightarrow> b_runs (sp_boots s ! i) \<noteq> []"
    by (simp_all add: fresh_inv_def)
  show ?thesis
  proof (cases ev)
    case (Boot i bev)
    show ?thesis
    proof (cases "i < length (sp_boots s)")
      case False
      with Bootstrapping Boot inv show ?thesis by simp
    next
      case True
      obtain b' m' errs' where r: "boot_resume hp bev (sp_boots s ! i) (sp_refs s ! i) m (sp_errors s) = (b', m', errs')"
        by (cases "boot_resume hp bev (sp_boots s ! i) (sp_refs s ! i) m (sp_errors s)")
      have o: "bev = START \<longrightarrow> b_runs (sp_boots s ! i) = []"
        using once Boot Bootstrapping True by (auto simp: started_def)
      from bk True len have bki: "is_Booted (sp_boots s ! i) \<longrightarrow> b_runs (sp_boots s ! i) \<noteq> []" by simp
      note M = boot_step_match [OF bm True r o bki]
      define s' where "s' = s\<lparr>sp_boots := (sp_boots s)[i := b'], sp_errors := errs'\<rparr>"
      have bk': "\<forall>k < n. is_Booted (sp_boots s' ! k) \<longrightarrow> b_runs (sp_boots s' ! k) \<noteq> []"
      proof (intro allI impI)
        fix k assume k: "k < n" "is_Booted (sp_boots s' ! k)"
        show "b_runs (sp_boots s' ! k) \<noteq> []"
        proof (cases "k = i")
          case True
          with k M len show ?thesis by (simp add: s'_def)
        next
          case False
          with k bk len show ?thesis by (simp add: s'_def)
        qed
      qed
      have "fresh_inv f n (join s') m'"
        using M len bk' by (intro join_fresh_inv) (simp_all add: s'_def)
      moreover have "started (join s') \<subseteq> started st \<union> {k. ev = Boot k START}"
      proof
        fix k assume "k \<in> started (join s')"
        with started_join [of s'] have "k < length (sp_boots s') \<and> b_runs (sp_boots s' ! k) \<noteq> []"
          by blast
        then have k: "k < length (sp_boots s)" "b_runs (sp_boots s' ! k) \<noteq> []"
          by (simp_all add: s'_def)
        show "k \<in> started st \<union> {k. ev = Boot k START}"
        proof (cases "k = i")
          case True
          with k M \<open>i < length (sp_boots s)\<close> Boot Bootstrapping show ?thesis
            by (auto simp: s'_def started_def)
        next
          case False
          with k Bootstrapping show ?thesis by (auto simp: s'_def started_def)
        qed
      qed
      ultimately show ?thesis
        using Bootstrapping Boot True r by (simp add: Let_def s'_def)
    qed
  next
    case (Got_socketPath x)
    with Bootstrapping inv show ?thesis by simp
  qed
next
  case (Spawned rep)
  with inv show ?thesis by simp
next
  case (Spawn_rejected e)
  then show ?thesis by (simp add: fresh_inv_def started_def)
qed

lemma starts_Cons: "starts (ev # evs) = (case ev of Boot i START \<Rightarrow> [i] | _ \<Rightarrow> []) @ starts evs"
  by (simp add: starts_def)

lemma spawn_run_fresh_inv:
  assumes "fresh_inv f n st m" "distinct (starts evs)" "started st \<inter> set (starts evs) = {}"
  shows "fresh_inv f n (fst (spawn_run hp evs (st, m))) (snd (spawn_run hp evs (st, m)))"
  using assms
proof (induction evs arbitrary: st m)
  case Nil
  then show ?case by simp
next
  case (Cons ev evs)
  show ?case
  proof (cases "exitCode m = None")
    case False
    with Cons.prems show ?thesis by auto
  next
    case True
    have once: "\<forall>i. ev = Boot i START \<longrightarrow> i \<notin> started st"
      using Cons.prems(3) by (auto simp: starts_Cons)
    note S = spawn_resume_fresh_inv [OF Cons.prems(1) once, of hp]
    have d: "distinct (starts evs)" using Cons.prems(2) by (simp add: starts_Cons)
    have "started (fst (spawn_resume hp ev st m)) \<inter> set (starts evs) = {}"
    proof -
      have "(started st \<union> {i. ev = Boot i START}) \<inter> set (starts evs) = {}"
        using Cons.prems(2,3) by (auto simp: starts_Cons split: spawn_event.splits boot_event.splits)
      with S show ?thesis by blast
    qed
    from Cons.IH [OF _ d this, of "snd (spawn_resume hp ev st m)"] S True
    show ?thesis by simp
  qed
qed

lemma spawn_call_fresh_inv:
  assumes "workerMonitors m = []" "0 \<le> ensureInstanceNumber hp instances"
  shows "fresh_inv (nextRef m) (nat (ensureInstanceNumber hp instances))
           (fst (spawn_call hp instances m)) (snd (spawn_call hp instances m)) \<and>
         started (fst (spawn_call hp instances m)) = {}"
proof -
  define n where "n = nat (ensureInstanceNumber hp instances)"
  define m1 where "m1 = m\<lparr>workers := (\<lambda>r. if nextRef m \<le> r \<and> r < nextRef m + n
                                        then new_WorkerMonitor (template m) else workers m r),
                     nextRef := nextRef m + n\<rparr>"
  have e: "workerMonitors m1 = []" using assms(1) by (simp add: m1_def)
  have c: "spawn_call hp instances m =
      (if \<not> socket m then (Await_getSocketPath [nextRef m..<nextRef m + n], m1)
       else bootstrap_all [nextRef m..<nextRef m + n] m1)"
    using assms(2) by (simp add: spawn_call_def Let_def n_def m1_def)
  show ?thesis
  proof (cases "socket m")
    case False
    with c e show ?thesis by (simp add: fresh_inv_def n_def [symmetric] started_def)
  next
    case True
    with c bootstrap_all_fresh_inv [OF e, of "nextRef m" n] show ?thesis
      by (simp add: n_def [symmetric])
  qed
qed

lemma allocation:
  assumes "nums m0 = map Some xs"
  shows "fst (assign_number r m0) = Some ((if xs = [] then 0 else Max (set xs)) + 1) \<and>
         fst (assign_number r m0) \<notin> set (nums m0) \<and>
         workerMonitors (snd (assign_number r m0)) = workerMonitors m0 @ [r]"
proof (cases "xs = []")
  case True
  with assms have "workerMonitors m0 = []" by (simp add: nums_def)
  with True assms show ?thesis by (simp add: assign_number_def Let_def)
next
  case False
  with assms have ne: "workerMonitors m0 \<noteq> []" by (auto simp: nums_def)
  from Math_max_Some [OF False] assms have mx: "Math_max (nums m0) = Some (Max (set xs))" by simp
  have "Max (set xs) + 1 \<notin> set xs"
  proof
    assume "Max (set xs) + 1 \<in> set xs"
    then have "Max (set xs) + 1 \<le> Max (set xs)" by (intro Max_ge) simp_all
    then show False by simp
  qed
  with ne mx False assms show ?thesis
    by (auto simp: assign_number_def Let_def)
qed

lemma run_resume_workers:
  assumes "run_resume hp x ru r m = (ru', m', new)"
  shows "(\<forall>q. q \<noteq> r \<longrightarrow> workers m' q = workers m q) \<and>
         instanceNum (workers m' r) = instanceNum (workers m r)"
  using assms
  by (cases "(hp, x, ru, r, m)" rule: run_resume.cases)
     (auto simp: run_failed_def Let_def emit_def)

lemma run_resume_numbered:
  assumes "run_resume hp x ru r m = (ru', m', [])" "run_numbered (workers m r) ru"
  shows "run_numbered (workers m' r) ru'"
  using assms
  by (cases "(hp, x, ru, r, m)" rule: run_resume.cases)
     (auto simp: run_failed_def Let_def emit_def run_numbered_def)

lemma run_resume_others_numbered:
  assumes "run_resume hp x ru r m = (ru', m', [])" "run_numbered (workers m r) other"
    "run_numbered (workers m r) ru"
  shows "run_numbered (workers m' r) other"
  using assms
  by (cases "(hp, x, ru, r, m)" rule: run_resume.cases; cases other)
     (auto simp: run_failed_def Let_def emit_def run_numbered_def)

lemma run_resume_finished_snapshot:
  assumes "run_resume hp x ru r m = (Finished, m', [])" "run_numbered (workers m r) ru" "ru \<noteq> Finished"
  shows "toJSON (workers m' r) ''instanceNum'' = Some (number_value (instanceNum (workers m' r)))"
  using assms
  by (cases "(hp, x, ru, r, m)" rule: run_resume.cases)
     (auto simp: run_failed_def Let_def emit_def run_numbered_def toJSON_def)

lemma toJSON_instanceNum: "toJSON w ''instanceNum'' = data w ''instanceNum''"
  by (simp add: toJSON_def)

lemma boot_resume_numbered:
  assumes r: "boot_resume hp ev b r m errs = (b', m', errs')"
    and e: "errs' = []"
    and once: "ev = START \<longrightarrow> b_runs b = [] \<and> b_promise b = None"
    and old: "boot_numbered (workers m r) b"
  shows "errs = [] \<and> boot_numbered (workers m' r) b' \<and>
         (\<forall>q. q \<noteq> r \<longrightarrow> workers m' q = workers m q)"
proof (cases ev)
  case START
  with once have fr: "b_runs b = []" "b_promise b = None" by simp_all
  from r START fr have b': "b' = b\<lparr>b_runs := [AwaitPidFile (fst (assign_number r m))]\<rparr>"
    and m': "m' = snd (assign_number r m)" and er: "errs' = errs"
    by (auto simp: boot_resume_def Let_def)
  have "instanceNum (workers m' r) = fst (assign_number r m)"
    by (simp add: m' assign_number_def Let_def)
  moreover have "\<forall>q. q \<noteq> r \<longrightarrow> workers m' q = workers m q"
    by (simp add: m' assign_number_def Let_def)
  ultimately show ?thesis
    using b' fr er e by (simp add: boot_numbered_def run_numbered_def)
next
  case (Settled j x)
  show ?thesis
  proof (cases "j < length (b_runs b)")
    case False
    with r Settled have "b' = b" "m' = m" "errs' = errs" by (simp_all add: boot_resume_def)
    with old e show ?thesis by simp
  next
    case True
    obtain ru' m1 new where rr: "run_resume hp x (b_runs b ! j) r m = (ru', m1, new)"
      by (cases "run_resume hp x (b_runs b ! j) r m")
    from r Settled True rr have m': "m' = m1" and er: "errs' = errs @ new"
      and runs': "b_runs b' = (b_runs b)[j := ru']"
      and p': "b_promise b' = (if ru' = Finished \<and> b_runs b ! j \<noteq> Finished \<and> b_promise b = None
                               then Some (toJSON (workers m1 r)) else b_promise b)"
      by (auto simp: boot_resume_def Let_def)
    from er e have en: "errs = []" "new = []" by simp_all
    with rr have rr0: "run_resume hp x (b_runs b ! j) r m = (ru', m1, [])" by simp
    from old have runs_ok: "list_all (run_numbered (workers m r)) (b_runs b)"
      and prom_ok: "case b_promise b of None \<Rightarrow> True
           | Some snap \<Rightarrow> snap ''instanceNum'' = Some (number_value (instanceNum (workers m r)))"
      by (simp_all add: boot_numbered_def)
    from runs_ok True have here: "run_numbered (workers m r) (b_runs b ! j)"
      by (simp add: list_all_length)
    note W = run_resume_workers [OF rr0]
    have same: "instanceNum (workers m1 r) = instanceNum (workers m r)" using W by simp
    have a: "list_all (run_numbered (workers m1 r)) ((b_runs b)[j := ru'])"
    proof -
      have "run_numbered (workers m1 r) ((b_runs b)[j := ru'] ! k)" if "k < length (b_runs b)" for k
      proof (cases "k = j")
        case True
        with that run_resume_numbered [OF rr0 here] show ?thesis by simp
      next
        case False
        from runs_ok that have "run_numbered (workers m r) (b_runs b ! k)" by (simp add: list_all_length)
        from run_resume_others_numbered [OF rr0 this here] False show ?thesis by simp
      qed
      then show ?thesis by (simp add: list_all_length)
    qed
    have b: "case b_promise b' of None \<Rightarrow> True
           | Some snap \<Rightarrow> snap ''instanceNum'' = Some (number_value (instanceNum (workers m1 r)))"
    proof (cases "ru' = Finished \<and> b_runs b ! j \<noteq> Finished \<and> b_promise b = None")
      case True
      with rr0 have "run_resume hp x (b_runs b ! j) r m = (Finished, m1, [])" by simp
      from run_resume_finished_snapshot [OF this here] True p' show ?thesis by simp
    next
      case False
      with p' have "b_promise b' = b_promise b" by auto
      with prom_ok same show ?thesis by (simp split: option.splits)
    qed
    from a b runs' en W m' show ?thesis by (simp add: boot_numbered_def)
  qed
qed

lemma boot_resume_errors:
  "boot_resume hp ev b r m errs = (b', m', errs') \<Longrightarrow> \<exists>new. errs' = errs @ new"
  by (cases ev) (auto simp: boot_resume_def Let_def split: if_splits)

lemma booted_snapshots:
  "list_all is_Booted bs \<Longrightarrow> concat (map snapshot_of bs) = map (\<lambda>b. the (b_promise b)) bs"
  by (induction bs) (auto simp: is_Booted_def snapshot_of_def)

lemma join_entries:
  assumes "length (sp_boots s) = n"
    and "sp_errors s = [] \<longrightarrow> (\<forall>i < n. boot_numbered (workers m (f + i)) (sp_boots s ! i))"
  shows "entries_inv f n (join s) m"
proof (cases "list_all is_Booted (sp_boots s)")
  case False
  with assms show ?thesis by (simp add: join_def entries_inv_def)
next
  case True
  have "map (\<lambda>snap. snap ''instanceNum'') (map (\<lambda>b. the (b_promise b)) (sp_boots s)) =
        map (\<lambda>r. Some (number_value (instanceNum (workers m r)))) [f..<f + n]"
    if e: "sp_errors s = []"
  proof (rule nth_equalityI)
    show "length (map (\<lambda>snap. snap ''instanceNum'') (map (\<lambda>b. the (b_promise b)) (sp_boots s))) =
          length (map (\<lambda>r. Some (number_value (instanceNum (workers m r)))) [f..<f + n])"
      using assms(1) by simp
  next
    fix i assume "i < length (map (\<lambda>snap. snap ''instanceNum'') (map (\<lambda>b. the (b_promise b)) (sp_boots s)))"
    then have i: "i < n" using assms(1) by simp
    with True assms(1) have "is_Booted (sp_boots s ! i)" by (simp add: list_all_length)
    then obtain snap where sn: "b_promise (sp_boots s ! i) = Some snap" by (auto simp: is_Booted_def)
    from assms(2) e i have "boot_numbered (workers m (f + i)) (sp_boots s ! i)" by simp
    with sn have "snap ''instanceNum'' = Some (number_value (instanceNum (workers m (f + i))))"
      by (simp add: boot_numbered_def)
    with sn i assms(1)
    show "map (\<lambda>snap. snap ''instanceNum'') (map (\<lambda>b. the (b_promise b)) (sp_boots s)) ! i =
          map (\<lambda>r. Some (number_value (instanceNum (workers m r)))) [f..<f + n] ! i"
      by simp
  qed
  with True show ?thesis
    by (simp add: join_def entries_inv_def booted_snapshots)
qed

lemma bootstrap_all_entries:
  "entries_inv f n (fst (bootstrap_all [f..<f + n] m)) (snd (bootstrap_all [f..<f + n] m))"
proof -
  have "entries_inv f n
          (join \<lparr>sp_refs = [f..<f + n], sp_boots = map (\<lambda>r. \<lparr>b_promise = None, b_runs = []\<rparr>) [f..<f + n], sp_errors = []\<rparr>)
          (m\<lparr>effects := effects m @ map Call_start [f..<f + n]\<rparr>)"
    by (rule join_entries) (simp_all add: boot_numbered_def)
  then show ?thesis by (simp add: bootstrap_all_def)
qed

lemma spawn_resume_entries:
  assumes inv: "fresh_inv f n st m" and en: "entries_inv f n st m"
    and once: "\<forall>i. ev = Boot i START \<longrightarrow> i \<notin> started st"
  shows "entries_inv f n (fst (spawn_resume hp ev st m)) (snd (spawn_resume hp ev st m))"
proof (cases st)
  case (Await_getSocketPath refs)
  then show ?thesis
    by (cases ev; cases "case ev of Got_socketPath x \<Rightarrow> x | _ \<Rightarrow> Reject TypeError")
       (auto simp: entries_inv_def startServer_def)
next
  case (Bootstrapping s)
  with inv have len: "length (sp_boots s) = n" and bm: "boots_match f s m"
    and bk: "\<forall>i < n. is_Booted (sp_boots s ! i) \<longrightarrow> b_runs (sp_boots s ! i) \<noteq> []"
    by (simp_all add: fresh_inv_def)
  from en Bootstrapping have old: "sp_errors s = [] \<longrightarrow>
      (\<forall>i < n. boot_numbered (workers m (f + i)) (sp_boots s ! i))"
    using len by (simp add: entries_inv_def)
  show ?thesis
  proof (cases ev)
    case (Got_socketPath x)
    with Bootstrapping en show ?thesis by simp
  next
    case (Boot i bev)
    show ?thesis
    proof (cases "i < length (sp_boots s)")
      case False
      with Bootstrapping Boot en show ?thesis by simp
    next
      case True
      from bm True have ri: "sp_refs s ! i = f + i" by (simp add: boots_match_def)
      obtain b' m' errs' where r: "boot_resume hp bev (sp_boots s ! i) (f + i) m (sp_errors s) = (b', m', errs')"
        by (cases "boot_resume hp bev (sp_boots s ! i) (f + i) m (sp_errors s)")
      have o: "bev = START \<longrightarrow> b_runs (sp_boots s ! i) = [] \<and> b_promise (sp_boots s ! i) = None"
      proof
        assume "bev = START"
        with once Boot Bootstrapping True have "b_runs (sp_boots s ! i) = []"
          by (auto simp: started_def)
        moreover from this bk True len have "\<not> is_Booted (sp_boots s ! i)" by auto
        ultimately show "b_runs (sp_boots s ! i) = [] \<and> b_promise (sp_boots s ! i) = None"
          by (simp add: is_Booted_def)
      qed
      define s' where "s' = s\<lparr>sp_boots := (sp_boots s)[i := b'], sp_errors := errs'\<rparr>"
      have "sp_errors s' = [] \<longrightarrow> (\<forall>k < n. boot_numbered (workers m' (f + k)) (sp_boots s' ! k))"
      proof (intro impI allI)
        fix k assume e: "sp_errors s' = []" and k: "k < n"
        then have e': "errs' = []" by (simp add: s'_def)
        from boot_resume_errors [OF r] e' have es: "sp_errors s = []" by auto
        with old True len have "boot_numbered (workers m (f + i)) (sp_boots s ! i)" by simp
        from boot_resume_numbered [OF r e' o this] es
        have N: "sp_errors s = []" "boot_numbered (workers m' (f + i)) b'"
          "\<forall>q. q \<noteq> f + i \<longrightarrow> workers m' q = workers m q"
          by simp_all
        show "boot_numbered (workers m' (f + k)) (sp_boots s' ! k)"
        proof (cases "k = i")
          case True
          with N(2) k len show ?thesis by (simp add: s'_def)
        next
          case False
          with N(1,3) old k show ?thesis by (simp add: s'_def)
        qed
      qed
      then have "entries_inv f n (join s') m'"
        using len by (intro join_entries) (simp_all add: s'_def)
      with Bootstrapping Boot True r ri show ?thesis by (simp add: Let_def s'_def)
    qed
  qed
next
  case (Spawned rep)
  with en show ?thesis by simp
next
  case (Spawn_rejected e)
  then show ?thesis by (simp add: entries_inv_def)
qed

lemma spawn_run_entries:
  assumes "fresh_inv f n st m" "entries_inv f n st m" "distinct (starts evs)"
    "started st \<inter> set (starts evs) = {}"
  shows "entries_inv f n (fst (spawn_run hp evs (st, m))) (snd (spawn_run hp evs (st, m)))"
  using assms
proof (induction evs arbitrary: st m)
  case Nil
  then show ?case by simp
next
  case (Cons ev evs)
  show ?case
  proof (cases "exitCode m = None")
    case False
    with Cons.prems show ?thesis by auto
  next
    case True
    have once: "\<forall>i. ev = Boot i START \<longrightarrow> i \<notin> started st"
      using Cons.prems(4) by (auto simp: starts_Cons)
    note S = spawn_resume_fresh_inv [OF Cons.prems(1) once, of hp]
    note E = spawn_resume_entries [OF Cons.prems(1,2) once, of hp]
    have d: "distinct (starts evs)" using Cons.prems(3) by (simp add: starts_Cons)
    have "started (fst (spawn_resume hp ev st m)) \<inter> set (starts evs) = {}"
    proof -
      have "(started st \<union> {i. ev = Boot i START}) \<inter> set (starts evs) = {}"
        using Cons.prems(3,4) by (auto simp: starts_Cons split: spawn_event.splits boot_event.splits)
      with S show ?thesis by blast
    qed
    from Cons.IH [OF _ E d this] S True
    show ?thesis by simp
  qed
qed

lemma spawn_call_entries:
  assumes "0 \<le> ensureInstanceNumber hp instances"
  shows "entries_inv (nextRef m) (nat (ensureInstanceNumber hp instances))
           (fst (spawn_call hp instances m)) (snd (spawn_call hp instances m))"
proof -
  define n where "n = nat (ensureInstanceNumber hp instances)"
  define m1 where "m1 = m\<lparr>workers := (\<lambda>r. if nextRef m \<le> r \<and> r < nextRef m + n
                                        then new_WorkerMonitor (template m) else workers m r),
                     nextRef := nextRef m + n\<rparr>"
  have c: "spawn_call hp instances m =
      (if \<not> socket m then (Await_getSocketPath [nextRef m..<nextRef m + n], m1)
       else bootstrap_all [nextRef m..<nextRef m + n] m1)"
    using assms by (simp add: spawn_call_def Let_def n_def m1_def)
  show ?thesis
  proof (cases "socket m")
    case False
    with c show ?thesis by (simp add: entries_inv_def n_def [symmetric])
  next
    case True
    with c bootstrap_all_entries [of "nextRef m" n m1] show ?thesis
      by (simp add: n_def [symmetric])
  qed
qed

lemma entries_numbers:
  assumes nm: "nums m = map (\<lambda>k. Some (int k)) [1..<Suc n]"
    and st: "set (workerMonitors m) = {f..<f + n}"
    and di: "distinct (workerMonitors m)"
    and en: "ents = map (\<lambda>r. Some (number_value (instanceNum (workers m r)))) [f..<f + n]"
  shows "distinct ents \<and> set ents = (\<lambda>k. Some (JNum (int k))) ` {1..n}"
proof -
  define g where "g = (\<lambda>r. instanceNum (workers m r))"
  have ng: "nums m = map g (workerMonitors m)" by (simp add: nums_def g_def)
  have inj: "inj_on (\<lambda>k. Some (int k)) (set [1..<Suc n])" by (simp add: inj_on_def)
  have dn: "distinct (map g (workerMonitors m))"
    unfolding ng [symmetric] nm using inj by (simp add: distinct_map)
  then have gi: "inj_on g {f..<f + n}" using st by (simp add: distinct_map)
  have "set (map g (workerMonitors m)) = (\<lambda>k. Some (int k)) ` set [1..<Suc n]"
    unfolding ng [symmetric] nm by (simp only: set_map)
  moreover have "set [1..<Suc n] = {1..n}" by auto
  ultimately have img: "g ` {f..<f + n} = (\<lambda>k. Some (int k)) ` {1..n}"
    using st by simp
  have ents: "ents = map (\<lambda>r. Some (number_value (g r))) [f..<f + n]"
    by (simp add: en g_def)
  have inj2: "inj_on (\<lambda>r. Some (number_value (g r))) {f..<f + n}"
  proof (rule inj_onI)
    fix a b assume a: "a \<in> {f..<f + n}" and b: "b \<in> {f..<f + n}"
      and eq: "Some (number_value (g a)) = Some (number_value (g b))"
    from a img obtain ka where ka: "g a = Some (int ka)" by blast
    from b img obtain kb where kb: "g b = Some (int kb)" by blast
    from eq ka kb have "g a = g b" by (simp add: number_value_def)
    with gi a b show "a = b" by (auto dest: inj_onD)
  qed
  have d: "distinct ents" unfolding ents using inj2 by (simp add: distinct_map)
  have "set ents = (\<lambda>x. Some (number_value x)) ` (g ` {f..<f + n})"
    unfolding ents by (auto simp: image_image)
  also have "\<dots> = (\<lambda>k. Some (JNum (int k))) ` {1..n}"
    unfolding img by (simp add: image_image number_value_def)
  finally show ?thesis using d by simp
qed



lemma demo_one_by_one_two:
  "one_by_one [Boots ''run/app.pid'' ''run/app.sock'', Boots ''run/app.pid'' ''run/app.sock''] = boot_ok 0 @ boot_ok 1"
  by (simp add: one_by_one_def boot_ok_def)


end
